theory Spec2Isabelle
  imports Main "HOL-Library.Word"
begin

section \<open>JavaScript strings\<close>

text \<open>
  A JavaScript string is a finite sequence of UTF-16 code units. The parser under
  verification (\<^verbatim>\<open>parseSOPResponse\<close> in \<^verbatim>\<open>src/services/sop-text-generator.ts\<close>)
  only inspects code units, so a string is modelled as a list of 16-bit words.
\<close>

type_synonym code_unit = "16 word"
type_synonym jstring = "code_unit list"

text \<open>Literals: every ASCII character is the code unit of the same number.\<close>

definition js :: "string \<Rightarrow> jstring" where
  "js s = map of_char s"

definition LF :: code_unit where
  "LF = 0x0A"

text \<open>
  \<^verbatim>\<open>String.prototype.trim\<close> and the regular-expression class \<^verbatim>\<open>\s\<close> use the same
  set: ECMAScript WhiteSpace (TAB, VT, FF, SP, NBSP, ZWNBSP and the Unicode
  space separators) together with LineTerminator (LF, CR, LS, PS).
\<close>

definition isWhiteSpace :: "code_unit \<Rightarrow> bool" where
  "isWhiteSpace c \<longleftrightarrow>
     c = 0x09 \<or> c = 0x0A \<or> c = 0x0B \<or> c = 0x0C \<or> c = 0x0D \<or> c = 0x20 \<or>
     c = 0xA0 \<or> c = 0x1680 \<or> (0x2000 \<le> c \<and> c \<le> 0x200A) \<or>
     c = 0x2028 \<or> c = 0x2029 \<or> c = 0x202F \<or> c = 0x205F \<or> c = 0x3000 \<or>
     c = 0xFEFF"

text \<open>The class \<^verbatim>\<open>\d\<close> (without the unicode flag) is \<^verbatim>\<open>[0-9]\<close>.\<close>

definition isDigit :: "code_unit \<Rightarrow> bool" where
  "isDigit c \<longleftrightarrow> 0x30 \<le> c \<and> c \<le> 0x39"

definition trim :: "jstring \<Rightarrow> jstring" where
  "trim s = rev (dropWhile isWhiteSpace (rev (dropWhile isWhiteSpace s)))"

definition startsWith :: "jstring \<Rightarrow> jstring \<Rightarrow> bool" where
  "startsWith s p \<longleftrightarrow> take (length p) s = p"

text \<open>
  \<^verbatim>\<open>s.split(sep)\<close> for a one-unit separator: the pieces between the occurrences of
  the separator, in order; there is always at least one piece (the empty string
  splits into one empty piece).
\<close>

fun split :: "code_unit \<Rightarrow> jstring \<Rightarrow> jstring list" where
  "split sep [] = [[]]"
| "split sep (c # cs) =
     (if c = sep then [] # split sep cs
      else (case split sep cs of
              [] \<Rightarrow> [[c]]
            | l # ls \<Rightarrow> (c # l) # ls))"

text \<open>
  The template literal \<^verbatim>\<open>`${n}`\<close> of a non-negative integer counter: its decimal
  digits, most significant first. (The counters are bounded by the number of lines
  of the text, far below \<open>2^53\<close>, so the JavaScript number is the exact integer.)
\<close>

fun decimal :: "nat \<Rightarrow> jstring" where
  "decimal n =
     (if n < 10 then [0x30 + of_nat n]
      else decimal (n div 10) @ [0x30 + of_nat (n mod 10)])"

declare decimal.simps [simp del]

subsection \<open>The regular expressions of the parser\<close>

text \<open>
  Each pattern is anchored at the start (\<^verbatim>\<open>^\<close>, no \<^verbatim>\<open>m\<close> or \<^verbatim>\<open>g\<close> flag), so
  \<^verbatim>\<open>replace(re, '')\<close> removes the matched prefix when the pattern matches and
  returns the string unchanged otherwise. A matcher returns the rest of the
  string after the match.

  The quantifiers are greedy. In every pattern below a run \<^verbatim>\<open>\d+\<close> is followed
  by \<^verbatim>\<open>\.\<close> or by white space, never by a digit, so giving back digits by
  backtracking cannot produce a match that the longest run does not produce;
  \<^verbatim>\<open>\s*\<close> and \<^verbatim>\<open>\s+\<close> stand last.
\<close>

definition match_digits :: "jstring \<Rightarrow> jstring option" where
  \<comment> \<open>\<^verbatim>\<open>\d+\<close>\<close>
  "match_digits s =
     (if takeWhile isDigit s = [] then None else Some (dropWhile isDigit s))"

definition match_dot :: "jstring \<Rightarrow> jstring option" where
  \<comment> \<open>\<^verbatim>\<open>\.\<close>\<close>
  "match_dot s = (case s of [] \<Rightarrow> None | c # cs \<Rightarrow> if c = 0x2E then Some cs else None)"

definition match_spaces0 :: "jstring \<Rightarrow> jstring option" where
  \<comment> \<open>\<^verbatim>\<open>\s*\<close>\<close>
  "match_spaces0 s = Some (dropWhile isWhiteSpace s)"

definition match_spaces1 :: "jstring \<Rightarrow> jstring option" where
  \<comment> \<open>\<^verbatim>\<open>\s+\<close>\<close>
  "match_spaces1 s =
     (if takeWhile isWhiteSpace s = [] then None else Some (dropWhile isWhiteSpace s))"

definition match_literal :: "jstring \<Rightarrow> jstring \<Rightarrow> jstring option" where
  "match_literal p s = (if startsWith s p then Some (drop (length p) s) else None)"

definition replace_prefix :: "(jstring \<Rightarrow> jstring option) \<Rightarrow> jstring \<Rightarrow> jstring" where
  \<comment> \<open>\<^verbatim>\<open>s.replace(re, '')\<close> for an anchored pattern\<close>
  "replace_prefix re s = (case re s of None \<Rightarrow> s | Some rest \<Rightarrow> rest)"

definition re_hash3 :: "jstring \<Rightarrow> jstring option" where
  \<comment> \<open>\<^verbatim>\<open>/^###\s*/\<close>\<close>
  "re_hash3 s = Option.bind (match_literal (js ''###'') s) match_spaces0"

definition re_hash4 :: "jstring \<Rightarrow> jstring option" where
  \<comment> \<open>\<^verbatim>\<open>/^####\s*/\<close>\<close>
  "re_hash4 s = Option.bind (match_literal (js ''####'') s) match_spaces0"

definition re_num_dot :: "jstring \<Rightarrow> jstring option" where
  \<comment> \<open>\<^verbatim>\<open>/^\d+\.\s*/\<close>\<close>
  "re_num_dot s = Option.bind (Option.bind (match_digits s) match_dot) match_spaces0"

definition re_num_space :: "jstring \<Rightarrow> jstring option" where
  \<comment> \<open>\<^verbatim>\<open>/^\d+\s+/\<close>\<close>
  "re_num_space s = Option.bind (match_digits s) match_spaces1"

definition re_num_num :: "jstring \<Rightarrow> jstring option" where
  \<comment> \<open>\<^verbatim>\<open>/^\d+\.\d+\s*/\<close>\<close>
  "re_num_num s =
     Option.bind (Option.bind (Option.bind (match_digits s) match_dot) match_digits)
       match_spaces0"

definition re_num_num_dot :: "jstring \<Rightarrow> jstring option" where
  \<comment> \<open>\<^verbatim>\<open>/^\d+\.\d+\.\s*/\<close>\<close>
  "re_num_num_dot s =
     Option.bind
       (Option.bind (Option.bind (Option.bind (match_digits s) match_dot) match_digits)
          match_dot)
       match_spaces0"

text \<open>The two title extractions, as the chains of \<^verbatim>\<open>replace\<close> and \<^verbatim>\<open>trim\<close> calls.\<close>

definition sectionTitle :: "jstring \<Rightarrow> jstring" where
  "sectionTitle trimmedLine =
     trim (replace_prefix re_num_space
            (replace_prefix re_num_dot
              (replace_prefix re_hash3 trimmedLine)))"

definition subsectionTitle :: "jstring \<Rightarrow> jstring" where
  "subsectionTitle trimmedLine =
     trim (replace_prefix re_num_num_dot
            (replace_prefix re_num_num
              (replace_prefix re_hash4 trimmedLine)))"

section \<open>Data model\<close>

text \<open>
  The objects built by the parser are mutable and shared: the object of the
  subsection being filled is at the same time an element of its section's
  \<^verbatim>\<open>subsections\<close> array. Objects therefore live in a store and refer to each
  other by address. A store is the list of the objects allocated so far; the
  address of an object is its position, and a new object goes to the end.
\<close>

type_synonym ref = nat

record SOPSection =
  number :: jstring
  title :: jstring
  content :: jstring
  subsections :: "ref list option"

type_synonym store = "SOPSection list"

text \<open>
  The caller's descriptor. Only \<^verbatim>\<open>title\<close> is read by the parser; the fields of
  TypeScript type \<^verbatim>\<open>any[]\<close> carry values of an arbitrary type.
\<close>

record 'any SOPTextInput =
  input_title :: jstring
  description :: jstring
  steps :: "'any list"
  inputs :: "'any list"
  outputs :: "'any list"
  actors :: "jstring list option"
  risks :: "'any list option"
  dependencies :: "'any list option"

text \<open>
  The returned value, read out of the store: a section with the sections below it.
  An absent \<^verbatim>\<open>subsections\<close> property is \<open>None\<close>.
\<close>

datatype SOPSection_tree =
  SOPSection_tree (t_number: jstring) (t_title: jstring) (t_content: jstring)
    (t_subsections: "SOPSection_tree list option")

record GeneratedSOPText =
  doc_title :: jstring
  documentNumber :: jstring
  version :: jstring
  effectiveDate :: jstring
  doc_sections :: "SOPSection_tree list"

text \<open>
  What the function reads from outside its arguments: the clock (\<^verbatim>\<open>new Date()\<close>)
  and the random number generator. \<open>randomThousand\<close> is the value of
  \<^verbatim>\<open>Math.floor(Math.random() * 1000)\<close>, \<open>nowMonth\<close> that of \<^verbatim>\<open>now.getMonth()\<close>.
\<close>

record environment =
  nowFullYear :: nat
  nowMonth :: nat
  nowISOString :: jstring
  randomThousand :: nat

datatype error =
  TypeError  \<comment> \<open>a property read through a reference to no object\<close>
| Cyclic     \<comment> \<open>the returned object graph is not a finite tree\<close>

definition deref :: "store \<Rightarrow> ref \<Rightarrow> error + SOPSection" where
  "deref h a = (if a < length h then Inr (h ! a) else Inl TypeError)"

definition alloc :: "store \<Rightarrow> SOPSection \<Rightarrow> ref \<times> store" where
  "alloc h ob = (length h, h @ [ob])"

fun sequence :: "(error + 'a) list \<Rightarrow> error + 'a list" where
  "sequence [] = Inr []"
| "sequence (x # xs) =
     (case x of
        Inl e \<Rightarrow> Inl e
      | Inr v \<Rightarrow> (case sequence xs of Inl e \<Rightarrow> Inl e | Inr vs \<Rightarrow> Inr (v # vs)))"

text \<open>
  Reading the object at an address as a tree. The first argument bounds the
  depth, so that the reading is defined on every store.
\<close>

fun read_tree :: "nat \<Rightarrow> store \<Rightarrow> ref \<Rightarrow> error + SOPSection_tree" where
  "read_tree 0 h a = Inl Cyclic"
| "read_tree (Suc n) h a =
     (case deref h a of
        Inl e \<Rightarrow> Inl e
      | Inr ob \<Rightarrow>
          (case subsections ob of
             None \<Rightarrow> Inr (SOPSection_tree (number ob) (title ob) (content ob) None)
           | Some refs \<Rightarrow>
               (case sequence (map (read_tree n h) refs) of
                  Inl e \<Rightarrow> Inl e
                | Inr ts \<Rightarrow>
                    Inr (SOPSection_tree (number ob) (title ob) (content ob) (Some ts)))))"

section \<open>The parser\<close>

text \<open>The local variables of \<^verbatim>\<open>parseSOPResponse\<close>, and the store.\<close>

record parser_state =
  store :: store
  sections :: "ref list"
  currentSection :: "ref option"
  currentSubsection :: "ref option"
  sectionNumber :: nat
  subsectionNumber :: nat

definition initial_state :: parser_state where
  "initial_state =
     \<lparr>store = [], sections = [], currentSection = None, currentSubsection = None,
      sectionNumber = 1, subsectionNumber = 1\<rparr>"

definition or_empty :: "jstring \<Rightarrow> jstring" where
  \<comment> \<open>\<^verbatim>\<open>s || ''\<close>: the empty string is the only falsy string\<close>
  "or_empty s = (if s = [] then [] else s)"

definition isMainHeading :: "jstring \<Rightarrow> bool" where
  "isMainHeading trimmedLine \<longleftrightarrow>
     startsWith trimmedLine (js ''###'') \<and> \<not> startsWith trimmedLine (js ''####'')"

definition isSubHeading :: "jstring \<Rightarrow> bool" where
  "isSubHeading trimmedLine \<longleftrightarrow> startsWith trimmedLine (js ''####'')"

text \<open>The body of the loop over the lines.\<close>

definition step :: "parser_state \<Rightarrow> jstring \<Rightarrow> error + parser_state" where
  "step s line =
     (let trimmedLine = trim line in
      if isMainHeading trimmedLine then
        (let pushed = (case currentSection s of
                         None \<Rightarrow> sections s
                       | Some a \<Rightarrow> sections s @ [a]);
             (a, h) = alloc (store s)
                        \<lparr>number = decimal (sectionNumber s),
                         title = sectionTitle trimmedLine,
                         content = [],
                         subsections = Some []\<rparr>
         in Inr (s\<lparr>store := h, sections := pushed, currentSection := Some a,
                   sectionNumber := sectionNumber s + 1, subsectionNumber := 1,
                   currentSubsection := None\<rparr>))
      else if isSubHeading trimmedLine then
        (case currentSection s of
           None \<Rightarrow> Inr s
         | Some a \<Rightarrow>
             (case deref (store s) a of
                Inl e \<Rightarrow> Inl e
              | Inr sec \<Rightarrow>
                  (let (b, h) = alloc (store s)
                                  \<lparr>number = number sec @ js ''.'' @
                                            decimal (subsectionNumber s),
                                   title = subsectionTitle trimmedLine,
                                   content = [],
                                   subsections = None\<rparr>;
                       subs = (case subsections sec of None \<Rightarrow> [] | Some rs \<Rightarrow> rs)
                   in Inr (s\<lparr>store := h[a := sec\<lparr>subsections := Some (subs @ [b])\<rparr>],
                             currentSubsection := Some b,
                             subsectionNumber := subsectionNumber s + 1\<rparr>))))
      else if length trimmedLine > 0 then
        (case currentSubsection s of
           Some b \<Rightarrow>
             (case deref (store s) b of
                Inl e \<Rightarrow> Inl e
              | Inr sub \<Rightarrow>
                  Inr (s\<lparr>store := (store s)
                           [b := sub\<lparr>content := or_empty (content sub) @ line @ [LF]\<rparr>]\<rparr>))
         | None \<Rightarrow>
             (case currentSection s of
                Some a \<Rightarrow>
                  (case deref (store s) a of
                     Inl e \<Rightarrow> Inl e
                   | Inr sec \<Rightarrow>
                       Inr (s\<lparr>store := (store s)
                                [a := sec\<lparr>content := or_empty (content sec) @ line @ [LF]\<rparr>]\<rparr>))
              | None \<Rightarrow> Inr s))
      else Inr s)"

fun run :: "parser_state \<Rightarrow> jstring list \<Rightarrow> error + parser_state" where
  "run s [] = Inr s"
| "run s (line # lines) =
     (case step s line of Inl e \<Rightarrow> Inl e | Inr s' \<Rightarrow> run s' lines)"

definition flush :: "parser_state \<Rightarrow> ref list" where
  \<comment> \<open>"Add last section"\<close>
  "flush s = (case currentSection s of None \<Rightarrow> sections s | Some a \<Rightarrow> sections s @ [a])"

definition padStart :: "nat \<Rightarrow> code_unit \<Rightarrow> jstring \<Rightarrow> jstring" where
  "padStart n c s = replicate (n - length s) c @ s"

definition makeDocumentNumber :: "environment \<Rightarrow> jstring" where
  "makeDocumentNumber env =
     js ''SOP-'' @ decimal (nowFullYear env) @ js ''-'' @
     padStart 2 0x30 (decimal (nowMonth env + 1)) @ js ''-'' @
     padStart 3 0x30 (decimal (randomThousand env))"

definition makeEffectiveDate :: "environment \<Rightarrow> jstring" where
  \<comment> \<open>\<^verbatim>\<open>now.toISOString().split('T')[0]\<close>\<close>
  "makeEffectiveDate env =
     (case split 0x54 (nowISOString env) of [] \<Rightarrow> [] | d # _ \<Rightarrow> d)"

definition parseLines ::
  "jstring list \<Rightarrow> 'any SOPTextInput \<Rightarrow> environment \<Rightarrow> error + GeneratedSOPText" where
  "parseLines lines input env =
     (case run initial_state lines of
        Inl e \<Rightarrow> Inl e
      | Inr s \<Rightarrow>
          (case sequence (map (read_tree (length (store s)) (store s)) (flush s)) of
             Inl e \<Rightarrow> Inl e
           | Inr ts \<Rightarrow>
               Inr \<lparr>doc_title = input_title input,
                    documentNumber = makeDocumentNumber env,
                    version = js ''1.0'',
                    effectiveDate = makeEffectiveDate env,
                    doc_sections = ts\<rparr>))"

definition parseSOPResponse ::
  "jstring \<Rightarrow> 'any SOPTextInput \<Rightarrow> environment \<Rightarrow> error + GeneratedSOPText" where
  "parseSOPResponse text input env = parseLines (split LF text) input env"

section \<open>The state of the parser as a tree\<close>

text \<open>
  The claims speak about the document, not about addresses. The view of a state
  is what the store holds below the parser's variables, read as trees: the
  sections already pushed, the section being filled, and whether a subsection
  is open. \<open>view_step\<close> is the loop body on views; \<open>step_view\<close> below proves that
  the loop body on the store computes exactly this.
\<close>

definition subrefs :: "store \<Rightarrow> ref \<Rightarrow> ref list" where
  "subrefs h a = (case subsections (h ! a) of None \<Rightarrow> [] | Some rs \<Rightarrow> rs)"

definition leaf_of :: "store \<Rightarrow> ref \<Rightarrow> SOPSection_tree" where
  "leaf_of h b = SOPSection_tree (number (h ! b)) (title (h ! b)) (content (h ! b)) None"

definition tree_of :: "store \<Rightarrow> ref \<Rightarrow> SOPSection_tree" where
  "tree_of h a =
     SOPSection_tree (number (h ! a)) (title (h ! a)) (content (h ! a))
       (Some (map (leaf_of h) (subrefs h a)))"

record view =
  pushed :: "SOPSection_tree list"
  current :: "SOPSection_tree option"
  subOpen :: bool
  secNo :: nat
  subNo :: nat

definition view_of :: "parser_state \<Rightarrow> view" where
  "view_of s =
     \<lparr>pushed = map (tree_of (store s)) (sections s),
      current = map_option (tree_of (store s)) (currentSection s),
      subOpen = (currentSubsection s \<noteq> None),
      secNo = sectionNumber s,
      subNo = subsectionNumber s\<rparr>"

definition initial_view :: view where
  "initial_view = \<lparr>pushed = [], current = None, subOpen = False, secNo = 1, subNo = 1\<rparr>"

definition subtrees :: "SOPSection_tree \<Rightarrow> SOPSection_tree list" where
  "subtrees t = (case t_subsections t of None \<Rightarrow> [] | Some ts \<Rightarrow> ts)"

definition add_content :: "jstring \<Rightarrow> SOPSection_tree \<Rightarrow> SOPSection_tree" where
  "add_content c t =
     SOPSection_tree (t_number t) (t_title t) (t_content t @ c) (t_subsections t)"

definition add_subsection :: "SOPSection_tree \<Rightarrow> SOPSection_tree \<Rightarrow> SOPSection_tree" where
  "add_subsection sub t =
     SOPSection_tree (t_number t) (t_title t) (t_content t) (Some (subtrees t @ [sub]))"

definition add_content_last_sub :: "jstring \<Rightarrow> SOPSection_tree \<Rightarrow> SOPSection_tree" where
  "add_content_last_sub c t =
     SOPSection_tree (t_number t) (t_title t) (t_content t)
       (Some (butlast (subtrees t) @ [add_content c (last (subtrees t))]))"

definition view_flush :: "view \<Rightarrow> SOPSection_tree list" where
  "view_flush v = (case current v of None \<Rightarrow> pushed v | Some t \<Rightarrow> pushed v @ [t])"

definition view_step :: "view \<Rightarrow> jstring \<Rightarrow> view" where
  "view_step v line =
     (let trimmedLine = trim line in
      if isMainHeading trimmedLine then
        \<lparr>pushed = view_flush v,
         current = Some (SOPSection_tree (decimal (secNo v)) (sectionTitle trimmedLine) []
                           (Some [])),
         subOpen = False, secNo = secNo v + 1, subNo = 1\<rparr>
      else if isSubHeading trimmedLine then
        (case current v of
           None \<Rightarrow> v
         | Some t \<Rightarrow>
             v\<lparr>current :=
                 Some (add_subsection
                         (SOPSection_tree (t_number t @ js ''.'' @ decimal (subNo v))
                            (subsectionTitle trimmedLine) [] None) t),
               subOpen := True, subNo := subNo v + 1\<rparr>)
      else if length trimmedLine > 0 then
        (case current v of
           None \<Rightarrow> v
         | Some t \<Rightarrow>
             if subOpen v then v\<lparr>current := Some (add_content_last_sub (line @ [LF]) t)\<rparr>
             else v\<lparr>current := Some (add_content (line @ [LF]) t)\<rparr>)
      else v)"

text \<open>
  The states the loop can reach: every address in use holds an object, a section
  object has a \<^verbatim>\<open>subsections\<close> array and a subsection object has none, no object is
  referred to twice, and the open subsection is the last element of the open
  section's array.
\<close>

definition all_subrefs :: "parser_state \<Rightarrow> ref list" where
  "all_subrefs s = concat (map (subrefs (store s)) (flush s))"

definition wf_state :: "parser_state \<Rightarrow> bool" where
  "wf_state s \<longleftrightarrow>
     (\<forall>a \<in> set (flush s). a < length (store s) \<and> subsections (store s ! a) \<noteq> None) \<and>
     (\<forall>b \<in> set (all_subrefs s). b < length (store s) \<and> subsections (store s ! b) = None) \<and>
     distinct (flush s) \<and>
     distinct (all_subrefs s) \<and>
     (case currentSubsection s of
        None \<Rightarrow>
          (case currentSection s of None \<Rightarrow> True | Some a \<Rightarrow> subrefs (store s) a = [])
      | Some b \<Rightarrow>
          (case currentSection s of
             None \<Rightarrow> False
           | Some a \<Rightarrow> subrefs (store s) a \<noteq> [] \<and> last (subrefs (store s) a) = b))"

text \<open>The sections of the document that the loop on views produces for a list of lines.\<close>

definition sections_of :: "jstring list \<Rightarrow> SOPSection_tree list" where
  "sections_of ls = view_flush (foldl view_step initial_view ls)"

section \<open>Vocabulary of the claims\<close>

text \<open>The number of lines whose trimmed form is a first-level heading.\<close>

definition count_main :: "jstring list \<Rightarrow> nat" where
  "count_main ls = length (filter (\<lambda>l. isMainHeading (trim l)) ls)"

text \<open>
  The numbers a section's subsections must carry: the section's own number, a
  period, and the ordinals 1, 2, ... in order.
\<close>

definition expected_subnumbers :: "SOPSection_tree \<Rightarrow> jstring list" where
  "expected_subnumbers t =
     map (\<lambda>j. t_number t @ js ''.'' @ decimal j) [1 ..< Suc (length (subtrees t))]"

text \<open>
  A line that is neither blank nor a heading (a trimmed line that starts with
  \<^verbatim>\<open>###\<close> is one of the two headings).
\<close>

definition isContentLine :: "jstring \<Rightarrow> bool" where
  "isContentLine line \<longleftrightarrow> trim line \<noteq> [] \<and> \<not> startsWith (trim line) (js ''###'')"

text \<open>All the content below a section, in reading order.\<close>

definition all_content :: "SOPSection_tree \<Rightarrow> jstring" where
  "all_content t = t_content t @ concat (map t_content (subtrees t))"

text \<open>A view the loop can reach.\<close>

definition view_inv :: "view \<Rightarrow> bool" where
  "view_inv v \<longleftrightarrow>
     (case current v of
        None \<Rightarrow> pushed v = [] \<and> \<not> subOpen v
      | Some t \<Rightarrow> subOpen v = (subtrees t \<noteq> []) \<and> subNo v = Suc (length (subtrees t))) \<and>
     (\<forall>t \<in> set (view_flush v).
        t_subsections t \<noteq> None \<and> map t_number (subtrees t) = expected_subnumbers t)"

text \<open>A descriptor and readings of the clock and the random generator, for examples.\<close>

definition example_input :: "unit SOPTextInput" where
  "example_input =
     \<lparr>input_title = js ''Handling returns'', description = js ''How returns are handled'',
      steps = [], inputs = [], outputs = [], actors = None, risks = None,
      dependencies = None\<rparr>"

definition example_env :: environment where
  "example_env =
     \<lparr>nowFullYear = 2025, nowMonth = 0, nowISOString = js ''2025-01-02T03:04:05.678Z'',
      randomThousand = 7\<rparr>"

definition other_env :: environment where
  "other_env =
     \<lparr>nowFullYear = 2025, nowMonth = 0, nowISOString = js ''2025-01-02T03:04:05.678Z'',
      randomThousand = 8\<rparr>"

text \<open>The scenario text of the specification.\<close>

definition scenario_text :: jstring where
  "scenario_text =
     js ''### Purpose'' @ [LF] @
     js ''This explains why.'' @ [LF] @
     js ''#### Scope Note'' @ [LF] @
     js ''Limited to dept A.'' @ [LF] @
     js ''### Procedure'' @ [LF] @
     js ''1. Step One - do thing'' @ [LF]"

text \<open>
  A heading line of either rank: its trimmed form starts with \<^verbatim>\<open>###\<close>. The number of
  second-level heading lines of a list of lines.
\<close>

definition isHeadingLine :: "jstring \<Rightarrow> bool" where
  "isHeadingLine line \<longleftrightarrow> startsWith (trim line) (js ''###'')"

definition count_sub :: "jstring list \<Rightarrow> nat" where
  "count_sub ls = length (filter (\<lambda>l. isSubHeading (trim l)) ls)"

text \<open>
  Where a line stands in a text: the lines read since the last first-level heading,
  the lines read since the last heading of either rank, and the lines that follow up
  to the next heading of either rank.
\<close>

definition after_last_main :: "jstring list \<Rightarrow> jstring list" where
  "after_last_main ls = rev (takeWhile (\<lambda>l. \<not> isMainHeading (trim l)) (rev ls))"

definition after_last_heading :: "jstring list \<Rightarrow> jstring list" where
  "after_last_heading ls = rev (takeWhile (\<lambda>l. \<not> isHeadingLine l) (rev ls))"

definition until_next_heading :: "jstring list \<Rightarrow> jstring list" where
  "until_next_heading ls = takeWhile (\<lambda>l. \<not> isHeadingLine l) ls"

text \<open>The lines that follow up to the next first-level heading.\<close>

definition until_next_main :: "jstring list \<Rightarrow> jstring list" where
  "until_next_main ls = takeWhile (\<lambda>l. \<not> isMainHeading (trim l)) ls"

text \<open>
  The content that a run of lines leaves in a node: its lines that are neither blank
  nor headings, each verbatim with one line feed, in order.
\<close>

definition content_of :: "jstring list \<Rightarrow> jstring" where
  "content_of ls = concat (map (\<lambda>l. l @ [LF]) (filter isContentLine ls))"

text \<open>The content of the innermost node of a section: its last subsection's, or its own.\<close>

definition innermost_content :: "SOPSection_tree \<Rightarrow> jstring" where
  "innermost_content t =
     (if subtrees t = [] then t_content t else t_content (last (subtrees t)))"

text \<open>
  What the rest of the text does to the section that is open: the sections before it
  stay, it keeps its place, number and title, its earlier subsections stay, it gains one
  subsection for each second-level heading up to the next first-level heading, and its
  innermost node receives exactly the content lines up to the next heading.
\<close>

definition settled :: "view \<Rightarrow> SOPSection_tree \<Rightarrow> jstring list \<Rightarrow> SOPSection_tree list \<Rightarrow> bool" where
  "settled v t ls F \<longleftrightarrow>
     length (pushed v) < length F \<and>
     take (length (pushed v)) F = pushed v \<and>
     t_number (F ! length (pushed v)) = t_number t \<and>
     t_title (F ! length (pushed v)) = t_title t \<and>
     length (subtrees (F ! length (pushed v))) =
       length (subtrees t) + count_sub (until_next_main ls) \<and>
     (if subtrees t = []
      then t_content (F ! length (pushed v)) = t_content t @ content_of (until_next_heading ls)
      else t_content (F ! length (pushed v)) = t_content t \<and>
           take (length (subtrees t) - 1) (subtrees (F ! length (pushed v))) =
             butlast (subtrees t) \<and>
           subtrees (F ! length (pushed v)) ! (length (subtrees t) - 1) =
             add_content (content_of (until_next_heading ls)) (last (subtrees t)))"

text \<open>A text with content and headings of both ranks in the middle.\<close>

definition mixed_text :: jstring where
  "mixed_text =
     js ''### A'' @ [LF] @
     js ''a'' @ [LF] @
     js ''##### Deep'' @ [LF] @
     js ''#### B'' @ [LF] @
     js ''### C''"

section \<open>The loop body on the store computes the loop body on views\<close>

subsection \<open>Frame lemmas for the store\<close>

lemma subrefs_append:
  "a < length h \<Longrightarrow> subrefs (h @ [ob]) a = subrefs h a"
  by (simp add: subrefs_def nth_append)

lemma leaf_of_append:
  "b < length h \<Longrightarrow> leaf_of (h @ [ob]) b = leaf_of h b"
  by (simp add: leaf_of_def nth_append)

lemma tree_of_append:
  "a < length h \<Longrightarrow> \<forall>b \<in> set (subrefs h a). b < length h \<Longrightarrow>
   tree_of (h @ [ob]) a = tree_of h a"
  by (simp add: tree_of_def nth_append subrefs_append leaf_of_append)

lemma subrefs_update_other:
  "a \<noteq> x \<Longrightarrow> subrefs (h[x := ob]) a = subrefs h a"
  by (simp add: subrefs_def)

lemma subrefs_update_same_field:
  "subsections ob = subsections (h ! x) \<Longrightarrow> subrefs (h[x := ob]) a = subrefs h a"
  by (cases "a = x"; cases "x < length h") (simp_all add: subrefs_def list_update_beyond)

lemma leaf_of_update_other:
  "b \<noteq> x \<Longrightarrow> leaf_of (h[x := ob]) b = leaf_of h b"
  by (simp add: leaf_of_def)

lemma leaves_update_other:
  assumes "x \<notin> set bs"
  shows "map (leaf_of (h[x := ob])) bs = map (leaf_of h) bs"
  using assms by (intro map_cong refl leaf_of_update_other) auto

lemma tree_of_update_other:
  assumes "a \<noteq> x" and "x \<notin> set (subrefs h a)"
  shows "tree_of (h[x := ob]) a = tree_of h a"
  using assms by (simp add: tree_of_def subrefs_update_other leaves_update_other)

subsection \<open>The reachable states\<close>

lemma wf_initial: "wf_state initial_state"
  by (simp add: wf_state_def initial_state_def flush_def all_subrefs_def)

lemma view_initial: "view_of initial_state = initial_view"
  by (simp add: view_of_def initial_state_def initial_view_def)

lemma view_flush_of: "view_flush (view_of s) = map (tree_of (store s)) (flush s)"
  by (simp add: view_flush_def view_of_def flush_def split: option.splits)

lemma wf_bound: "wf_state s \<Longrightarrow> a \<in> set (flush s) \<Longrightarrow> a < length (store s)"
  by (simp add: wf_state_def)

lemma wf_section: "wf_state s \<Longrightarrow> a \<in> set (flush s) \<Longrightarrow> subsections (store s ! a) \<noteq> None"
  by (simp add: wf_state_def)

lemma wf_all_sub_bound:
  "wf_state s \<Longrightarrow> b \<in> set (all_subrefs s) \<Longrightarrow> b < length (store s)"
  by (simp add: wf_state_def)

lemma wf_all_sub_leaf:
  "wf_state s \<Longrightarrow> b \<in> set (all_subrefs s) \<Longrightarrow> subsections (store s ! b) = None"
  by (simp add: wf_state_def)

lemma in_all_subrefs:
  "a \<in> set (flush s) \<Longrightarrow> b \<in> set (subrefs (store s) a) \<Longrightarrow> b \<in> set (all_subrefs s)"
  by (auto simp: all_subrefs_def)

lemma wf_sub_not_section:
  "wf_state s \<Longrightarrow> a \<in> set (flush s) \<Longrightarrow> b \<in> set (all_subrefs s) \<Longrightarrow> b \<noteq> a"
  using wf_section wf_all_sub_leaf by blast

lemma wf_distinct_flush: "wf_state s \<Longrightarrow> distinct (flush s)"
  by (simp add: wf_state_def)

lemma wf_distinct_subs: "wf_state s \<Longrightarrow> distinct (all_subrefs s)"
  by (simp add: wf_state_def)

lemma wf_open:
  "wf_state s \<Longrightarrow>
     (case currentSubsection s of
        None \<Rightarrow>
          (case currentSection s of None \<Rightarrow> True | Some a \<Rightarrow> subrefs (store s) a = [])
      | Some b \<Rightarrow>
          (case currentSection s of
             None \<Rightarrow> False
           | Some a \<Rightarrow> subrefs (store s) a \<noteq> [] \<and> last (subrefs (store s) a) = b))"
  by (simp add: wf_state_def)

lemma wf_stateI:
  assumes "\<And>a. a \<in> set (flush s) \<Longrightarrow> a < length (store s) \<and> subsections (store s ! a) \<noteq> None"
    and "\<And>b. b \<in> set (all_subrefs s) \<Longrightarrow> b < length (store s) \<and> subsections (store s ! b) = None"
    and "distinct (flush s)" and "distinct (all_subrefs s)"
    and "(case currentSubsection s of
        None \<Rightarrow>
          (case currentSection s of None \<Rightarrow> True | Some a \<Rightarrow> subrefs (store s) a = [])
      | Some b \<Rightarrow>
          (case currentSection s of
             None \<Rightarrow> False
           | Some a \<Rightarrow> subrefs (store s) a \<noteq> [] \<and> last (subrefs (store s) a) = b))"
  shows "wf_state s"
  unfolding wf_state_def using assms by blast

subsection \<open>One line\<close>

lemma step_main:
  assumes m: "isMainHeading (trim l)" and wf: "wf_state s"
  shows "\<exists>s'. step s l = Inr s' \<and> wf_state s' \<and> view_of s' = view_step (view_of s) l"
proof -
  define h where "h = store s"
  define ob where "ob = \<lparr>number = decimal (sectionNumber s), title = sectionTitle (trim l),
     content = [], subsections = Some []\<rparr>"
  define s' where "s' = s\<lparr>store := h @ [ob], sections := flush s,
     currentSection := Some (length h), sectionNumber := sectionNumber s + 1,
     subsectionNumber := 1, currentSubsection := None\<rparr>"
  have st: "step s l = Inr s'"
    using m by (simp add: step_def Let_def alloc_def s'_def h_def ob_def flush_def)
  have fl: "flush s' = flush s @ [length h]"
    by (simp add: s'_def flush_def)
  have sto: "store s' = h @ [ob]"
    by (simp add: s'_def)
  have bound: "a < length h" if "a \<in> set (flush s)" for a
    using wf that unfolding h_def by (rule wf_bound)
  have sbound: "b < length h" if "b \<in> set (all_subrefs s)" for b
    using wf that unfolding h_def by (rule wf_all_sub_bound)
  have old_sub: "subrefs (h @ [ob]) a = subrefs h a" if "a \<in> set (flush s)" for a
    using that by (simp add: subrefs_append bound)
  have old_tree: "tree_of (h @ [ob]) a = tree_of h a" if "a \<in> set (flush s)" for a
  proof (rule tree_of_append)
    show "a < length h" using that by (rule bound)
    show "\<forall>b\<in>set (subrefs h a). b < length h"
      using that sbound in_all_subrefs[of a s] by (auto simp: h_def)
  qed
  have new_sub: "subrefs (h @ [ob]) (length h) = []"
    by (simp add: subrefs_def ob_def)
  have new_tree: "tree_of (h @ [ob]) (length h) =
      SOPSection_tree (decimal (sectionNumber s)) (sectionTitle (trim l)) [] (Some [])"
    by (simp add: tree_of_def new_sub) (simp add: ob_def)
  have msub: "map (subrefs (h @ [ob])) (flush s) = map (subrefs h) (flush s)"
    by (intro map_cong refl old_sub)
  have e1: "all_subrefs s' =
      concat (map (subrefs (h @ [ob])) (flush s)) @ subrefs (h @ [ob]) (length h)"
    by (simp add: all_subrefs_def fl sto)
  have e2: "all_subrefs s = concat (map (subrefs h) (flush s))"
    by (simp add: all_subrefs_def h_def)
  have as: "all_subrefs s' = all_subrefs s"
    unfolding e1 e2 msub new_sub by simp
  have wf': "wf_state s'"
  proof (rule wf_stateI)
    fix a assume "a \<in> set (flush s')"
    then consider "a = length h" | "a \<in> set (flush s)" by (auto simp: fl)
    then show "a < length (store s') \<and> subsections (store s' ! a) \<noteq> None"
    proof cases
      case 1
      then show ?thesis by (simp add: sto ob_def)
    next
      case 2
      then show ?thesis
        using bound[OF 2] wf_section[OF wf 2] by (simp add: sto nth_append h_def)
    qed
  next
    fix b assume "b \<in> set (all_subrefs s')"
    then have b: "b \<in> set (all_subrefs s)" by (simp add: as)
    show "b < length (store s') \<and> subsections (store s' ! b) = None"
      using sbound[OF b] wf_all_sub_leaf[OF wf b] by (simp add: sto nth_append h_def)
  next
    show "distinct (flush s')"
      using wf_distinct_flush[OF wf] bound by (auto simp: fl)
  next
    show "distinct (all_subrefs s')"
      using wf_distinct_subs[OF wf] by (simp add: as)
  next
    show "case currentSubsection s' of
        None \<Rightarrow>
          (case currentSection s' of None \<Rightarrow> True | Some a \<Rightarrow> subrefs (store s') a = [])
      | Some b \<Rightarrow>
          (case currentSection s' of
             None \<Rightarrow> False
           | Some a \<Rightarrow> subrefs (store s') a \<noteq> [] \<and> last (subrefs (store s') a) = b)"
      by (simp add: s'_def new_sub)
  qed
  have mt: "map (tree_of (h @ [ob])) (flush s) = map (tree_of h) (flush s)"
    by (intro map_cong refl old_tree)
  have "view_step (view_of s) l =
     \<lparr>pushed = map (tree_of h) (flush s),
      current = Some (SOPSection_tree (decimal (sectionNumber s)) (sectionTitle (trim l)) []
                           (Some [])),
      subOpen = False, secNo = sectionNumber s + 1, subNo = 1\<rparr>"
    using m by (simp add: view_step_def Let_def view_flush_of h_def) (simp add: view_of_def)
  moreover have "view_of s' =
     \<lparr>pushed = map (tree_of (h @ [ob])) (flush s),
      current = Some (tree_of (h @ [ob]) (length h)),
      subOpen = False, secNo = sectionNumber s + 1, subNo = 1\<rparr>"
    by (simp add: view_of_def s'_def)
  ultimately have vw: "view_of s' = view_step (view_of s) l"
    unfolding mt new_tree by simp
  from st wf' vw show ?thesis by blast
qed

lemma step_sub:
  assumes nm: "\<not> isMainHeading (trim l)" and sh: "isSubHeading (trim l)"
    and wf: "wf_state s" and cs: "currentSection s = Some a"
  shows "\<exists>s'. step s l = Inr s' \<and> wf_state s' \<and> view_of s' = view_step (view_of s) l"
proof -
  define h where "h = store s"
  define sec where "sec = h ! a"
  define b where "b = length h"
  define ob where "ob = \<lparr>number = number sec @ js ''.'' @ decimal (subsectionNumber s),
     title = subsectionTitle (trim l), content = [], subsections = None\<rparr>"
  define subs where "subs = subrefs h a"
  define sec' where "sec' = sec\<lparr>subsections := Some (subs @ [b])\<rparr>"
  define h2 where "h2 = (h @ [ob])[a := sec']"
  define s' where "s' = s\<lparr>store := h2, currentSubsection := Some b,
     subsectionNumber := subsectionNumber s + 1\<rparr>"
  have fa: "flush s = sections s @ [a]"
    using cs by (simp add: flush_def)
  then have ain: "a \<in> set (flush s)" by simp
  have bound: "r < length h" if "r \<in> set (flush s)" for r
    using wf that unfolding h_def by (rule wf_bound)
  have sbound: "r < length h" if "r \<in> set (all_subrefs s)" for r
    using wf that unfolding h_def by (rule wf_all_sub_bound)
  have al: "a < length h" using ain by (rule bound)
  have st: "step s l = Inr s'"
    using nm sh cs al
    by (simp add: step_def Let_def deref_def alloc_def s'_def h2_def sec'_def ob_def
        subs_def subrefs_def sec_def b_def h_def)
  have len: "length h2 = Suc (length h)" by (simp add: h2_def)
  have fl: "flush s' = flush s" by (simp add: s'_def flush_def cs)
  have sto: "store s' = h2" by (simp add: s'_def)
  have h2a: "h2 ! a = sec'" using al by (simp add: h2_def)
  have h2b: "h2 ! b = ob" using al by (simp add: h2_def b_def)
  have h2o: "h2 ! r = h ! r" if "r < length h" "r \<noteq> a" for r
    using that by (simp add: h2_def nth_append)
  have sub_a: "subrefs h2 a = subs @ [b]"
    by (simp add: subrefs_def h2a sec'_def)
  have sub_o: "subrefs h2 r = subrefs h r" if "r < length h" "r \<noteq> a" for r
    using that by (simp add: subrefs_def h2o)
  have sec_ne: "r \<noteq> a" if "r \<in> set (sections s)" for r
    using wf_distinct_flush[OF wf] that by (auto simp: fa)
  have sec_sub: "subrefs h2 r = subrefs h r" if "r \<in> set (sections s)" for r
    using that sec_ne[OF that] bound[of r] by (simp add: sub_o fa)
  have ms: "map (subrefs h2) (sections s) = map (subrefs h) (sections s)"
    by (intro map_cong refl sec_sub)
  have e1: "all_subrefs s' = concat (map (subrefs h2) (sections s)) @ subrefs h2 a"
    by (simp add: all_subrefs_def fl sto fa)
  have as0: "all_subrefs s = concat (map (subrefs h) (sections s)) @ subs"
    by (simp add: all_subrefs_def fa h_def subs_def)
  have as: "all_subrefs s' = all_subrefs s @ [b]"
    unfolding e1 as0 ms sub_a by simp
  have sub_ne: "r \<noteq> a" if "r \<in> set (all_subrefs s)" for r
    using wf ain that by (rule wf_sub_not_section)
  have leaf_o: "leaf_of h2 r = leaf_of h r" if "r \<in> set (all_subrefs s)" for r
    using sbound[OF that] sub_ne[OF that] by (simp add: leaf_of_def h2o)
  have wf': "wf_state s'"
  proof (rule wf_stateI)
    fix r assume "r \<in> set (flush s')"
    then have r: "r \<in> set (flush s)" by (simp add: fl)
    show "r < length (store s') \<and> subsections (store s' ! r) \<noteq> None"
    proof (cases "r = a")
      case True
      then show ?thesis using al by (simp add: sto len h2a sec'_def)
    next
      case False
      then show ?thesis
        using bound[OF r] wf_section[OF wf r] by (simp add: sto len h2o) (simp add: h_def)
    qed
  next
    fix r assume "r \<in> set (all_subrefs s')"
    then consider "r = b" | "r \<in> set (all_subrefs s)" by (auto simp: as)
    then show "r < length (store s') \<and> subsections (store s' ! r) = None"
    proof cases
      case 1
      then show ?thesis by (simp add: sto len h2b) (simp add: b_def ob_def)
    next
      case 2
      then show ?thesis
        using sbound[OF 2] sub_ne[OF 2] wf_all_sub_leaf[OF wf 2]
        by (simp add: sto len h2o) (simp add: h_def)
    qed
  next
    show "distinct (flush s')"
      using wf_distinct_flush[OF wf] by (simp add: fl)
  next
    show "distinct (all_subrefs s')"
      using wf_distinct_subs[OF wf] sbound by (auto simp: as b_def)
  next
    show "case currentSubsection s' of
        None \<Rightarrow>
          (case currentSection s' of None \<Rightarrow> True | Some a \<Rightarrow> subrefs (store s') a = [])
      | Some b \<Rightarrow>
          (case currentSection s' of
             None \<Rightarrow> False
           | Some a \<Rightarrow> subrefs (store s') a \<noteq> [] \<and> last (subrefs (store s') a) = b)"
      using cs by (simp add: s'_def sub_a)
  qed
  have old_tree: "tree_of h2 r = tree_of h r" if "r \<in> set (sections s)" for r
  proof -
    have rl: "r < length h" using that by (simp add: bound fa)
    have "set (subrefs h r) \<subseteq> set (all_subrefs s)"
      using that by (auto simp: all_subrefs_def fa h_def)
    then have "map (leaf_of h2) (subrefs h r) = map (leaf_of h) (subrefs h r)"
      by (intro map_cong refl leaf_o) auto
    then show ?thesis
      using rl sec_ne[OF that] by (simp add: tree_of_def sec_sub[OF that] h2o)
  qed
  have mt: "map (tree_of h2) (sections s) = map (tree_of h) (sections s)"
    by (intro map_cong refl old_tree)
  have "pushed (view_of s') = map (tree_of h2) (sections s)"
    by (simp add: view_of_def s'_def)
  moreover have "pushed (view_of s) = map (tree_of h) (sections s)"
    by (simp add: view_of_def h_def)
  ultimately have pushed: "pushed (view_of s') = pushed (view_of s)"
    unfolding mt by simp
  have "set subs \<subseteq> set (all_subrefs s)"
    by (simp add: as0)
  then have ml: "map (leaf_of h2) subs = map (leaf_of h) subs"
    by (intro map_cong refl leaf_o) auto
  have nl: "leaf_of h2 b = SOPSection_tree (number sec @ js ''.'' @ decimal (subsectionNumber s))
      (subsectionTitle (trim l)) [] None"
    by (simp add: leaf_of_def h2b) (simp add: ob_def)
  have "tree_of h2 a = SOPSection_tree (number sec) (title sec) (content sec)
       (Some (map (leaf_of h2) subs @ [leaf_of h2 b]))"
    by (simp add: tree_of_def sub_a h2a) (simp add: sec'_def)
  moreover have "tree_of h a = SOPSection_tree (number sec) (title sec) (content sec)
       (Some (map (leaf_of h) subs))"
    by (simp add: tree_of_def subs_def sec_def)
  ultimately have cur: "tree_of h2 a =
      add_subsection (SOPSection_tree (t_number (tree_of h a) @ js ''.'' @ decimal (subsectionNumber s))
         (subsectionTitle (trim l)) [] None) (tree_of h a)"
    unfolding ml nl by (simp add: add_subsection_def subtrees_def)
  have vw: "view_of s' = view_step (view_of s) l"
    using nm sh cs pushed
    by (simp add: view_step_def Let_def)
      (simp add: view_of_def s'_def cur h_def)
  from st wf' vw show ?thesis by blast
qed

lemma or_empty_id: "or_empty x = x"
  by (simp add: or_empty_def)

lemma step_content_sub:
  assumes nm: "\<not> isMainHeading (trim l)" and nsh: "\<not> isSubHeading (trim l)"
    and ne: "trim l \<noteq> []"
    and wf: "wf_state s" and csub: "currentSubsection s = Some b"
  shows "\<exists>s'. step s l = Inr s' \<and> wf_state s' \<and> view_of s' = view_step (view_of s) l"
proof -
  define h where "h = store s"
  define sub where "sub = h ! b"
  define sub' where "sub' = sub\<lparr>content := content sub @ l @ [LF]\<rparr>"
  define h' where "h' = h[b := sub']"
  define s' where "s' = s\<lparr>store := h'\<rparr>"
  from wf_open[OF wf] csub obtain a where cs: "currentSection s = Some a"
    and sne: "subrefs h a \<noteq> []" and lst: "last (subrefs h a) = b"
    by (auto simp: h_def split: option.splits)
  have fa: "flush s = sections s @ [a]"
    using cs by (simp add: flush_def)
  then have ain: "a \<in> set (flush s)" by simp
  have bsub: "b \<in> set (subrefs h a)"
    using sne lst last_in_set by blast
  have as0: "all_subrefs s = concat (map (subrefs h) (sections s)) @ subrefs h a"
    by (simp add: all_subrefs_def fa h_def)
  then have bin: "b \<in> set (all_subrefs s)" using bsub by simp
  have bl: "b < length h"
    using wf bin unfolding h_def by (rule wf_all_sub_bound)
  have st: "step s l = Inr s'"
    using nm nsh ne csub bl
    by (simp add: step_def Let_def deref_def s'_def h'_def sub'_def sub_def or_empty_id h_def)
  have fl: "flush s' = flush s" by (simp add: s'_def flush_def cs)
  have sto: "store s' = h'" by (simp add: s'_def)
  have len: "length h' = length h" by (simp add: h'_def)
  have sr: "subrefs h' r = subrefs h r" for r
    unfolding h'_def by (rule subrefs_update_same_field) (simp add: sub'_def sub_def)
  have sr': "subrefs h' = subrefs h"
    by (rule ext) (rule sr)
  have as: "all_subrefs s' = all_subrefs s"
    by (simp add: all_subrefs_def fl sto sr' h_def)
  have sec_ne: "r \<noteq> b" if "r \<in> set (flush s)" for r
    using wf_sub_not_section[OF wf that bin] by simp
  have wf': "wf_state s'"
  proof (rule wf_stateI)
    fix r assume "r \<in> set (flush s')"
    then have r: "r \<in> set (flush s)" by (simp add: fl)
    show "r < length (store s') \<and> subsections (store s' ! r) \<noteq> None"
      using wf_bound[OF wf r] wf_section[OF wf r] sec_ne[OF r]
      by (simp add: sto len h'_def) (simp add: h_def)
  next
    fix r assume "r \<in> set (all_subrefs s')"
    then have r: "r \<in> set (all_subrefs s)" by (simp add: as)
    have "subsections (h ! r) = None"
      using wf_all_sub_leaf[OF wf r] by (simp add: h_def)
    moreover have "subsections (h' ! r) = subsections (h ! r)"
      using bl by (cases "r = b") (simp_all add: h'_def sub'_def sub_def)
    moreover have "r < length h"
      using wf_all_sub_bound[OF wf r] by (simp add: h_def)
    ultimately show "r < length (store s') \<and> subsections (store s' ! r) = None"
      by (simp add: sto len)
  next
    show "distinct (flush s')"
      using wf_distinct_flush[OF wf] by (simp add: fl)
  next
    show "distinct (all_subrefs s')"
      using wf_distinct_subs[OF wf] by (simp add: as)
  next
    show "case currentSubsection s' of
        None \<Rightarrow>
          (case currentSection s' of None \<Rightarrow> True | Some a \<Rightarrow> subrefs (store s') a = [])
      | Some b \<Rightarrow>
          (case currentSection s' of
             None \<Rightarrow> False
           | Some a \<Rightarrow> subrefs (store s') a \<noteq> [] \<and> last (subrefs (store s') a) = b)"
      using cs csub sne lst by (simp add: s'_def sr)
  qed
  have dis: "distinct (concat (map (subrefs h) (sections s)) @ subrefs h a)"
    using wf_distinct_subs[OF wf] by (simp add: as0)
  have old_tree: "tree_of h' r = tree_of h r" if "r \<in> set (sections s)" for r
    unfolding h'_def
  proof (rule tree_of_update_other)
    show "r \<noteq> b" using that by (intro sec_ne) (simp add: fa)
    show "b \<notin> set (subrefs h r)"
      using dis bsub that by auto
  qed
  have mt: "map (tree_of h') (sections s) = map (tree_of h) (sections s)"
    by (intro map_cong refl old_tree)
  have sp: "subrefs h a = butlast (subrefs h a) @ [b]"
    using sne lst by (metis append_butlast_last_id)
  have "distinct (subrefs h a)" using dis by simp
  then have "distinct (butlast (subrefs h a) @ [b])" using sp by simp
  then have "b \<notin> set (butlast (subrefs h a))" by simp
  then have ml: "map (leaf_of h') (butlast (subrefs h a)) = map (leaf_of h) (butlast (subrefs h a))"
    unfolding h'_def by (rule leaves_update_other)
  have nl: "leaf_of h' b = add_content (l @ [LF]) (leaf_of h b)"
    using bl by (simp add: leaf_of_def h'_def add_content_def) (simp add: sub'_def sub_def)
  have ane: "a \<noteq> b" using ain by (rule sec_ne)
  have "map (leaf_of h') (subrefs h a) =
      map (leaf_of h') (butlast (subrefs h a)) @ [leaf_of h' b]"
    by (subst sp) simp
  then have "tree_of h' a = SOPSection_tree (number (h ! a)) (title (h ! a)) (content (h ! a))
      (Some (map (leaf_of h) (butlast (subrefs h a)) @ [add_content (l @ [LF]) (leaf_of h b)]))"
    unfolding ml nl using ane by (simp add: tree_of_def sr) (simp add: h'_def)
  moreover have "add_content_last_sub (l @ [LF]) (tree_of h a) =
      SOPSection_tree (number (h ! a)) (title (h ! a)) (content (h ! a))
      (Some (map (leaf_of h) (butlast (subrefs h a)) @ [add_content (l @ [LF]) (leaf_of h b)]))"
    using sne lst by (simp add: add_content_last_sub_def tree_of_def subtrees_def map_butlast last_map)
  ultimately have cur: "tree_of h' a = add_content_last_sub (l @ [LF]) (tree_of h a)"
    by simp
  have "view_of s' = (view_of s)\<lparr>current := Some (tree_of h' a)\<rparr>"
    using cs by (simp add: view_of_def s'_def old_tree flip: h_def)
  moreover have "view_step (view_of s) l =
      (view_of s)\<lparr>current := Some (add_content_last_sub (l @ [LF]) (tree_of h a))\<rparr>"
    using nm nsh ne cs csub by (simp add: view_step_def Let_def) (simp add: view_of_def h_def)
  ultimately have vw: "view_of s' = view_step (view_of s) l"
    by (simp add: cur)
  from st wf' vw show ?thesis by blast
qed

lemma step_content_sec:
  assumes nm: "\<not> isMainHeading (trim l)" and nsh: "\<not> isSubHeading (trim l)"
    and ne: "trim l \<noteq> []"
    and wf: "wf_state s" and csub: "currentSubsection s = None"
    and cs: "currentSection s = Some a"
  shows "\<exists>s'. step s l = Inr s' \<and> wf_state s' \<and> view_of s' = view_step (view_of s) l"
proof -
  define h where "h = store s"
  define sec where "sec = h ! a"
  define sec' where "sec' = sec\<lparr>content := content sec @ l @ [LF]\<rparr>"
  define h' where "h' = h[a := sec']"
  define s' where "s' = s\<lparr>store := h'\<rparr>"
  from wf_open[OF wf] csub cs have nosub: "subrefs h a = []"
    by (simp add: h_def)
  have fa: "flush s = sections s @ [a]"
    using cs by (simp add: flush_def)
  then have ain: "a \<in> set (flush s)" by simp
  have al: "a < length h"
    using wf ain unfolding h_def by (rule wf_bound)
  have st: "step s l = Inr s'"
    using nm nsh ne csub cs al
    by (simp add: step_def Let_def deref_def s'_def h'_def sec'_def sec_def or_empty_id h_def)
  have fl: "flush s' = flush s" by (simp add: s'_def flush_def cs)
  have sto: "store s' = h'" by (simp add: s'_def)
  have len: "length h' = length h" by (simp add: h'_def)
  have sr: "subrefs h' r = subrefs h r" for r
    unfolding h'_def by (rule subrefs_update_same_field) (simp add: sec'_def sec_def)
  have sr': "subrefs h' = subrefs h"
    by (rule ext) (rule sr)
  have as: "all_subrefs s' = all_subrefs s"
    by (simp add: all_subrefs_def fl sto sr' h_def)
  have sub_ne: "r \<noteq> a" if "r \<in> set (all_subrefs s)" for r
    using wf ain that by (rule wf_sub_not_section)
  have keep: "subsections (h' ! r) = subsections (h ! r)" for r
    using al by (cases "r = a") (simp_all add: h'_def sec'_def sec_def)
  have wf': "wf_state s'"
  proof (rule wf_stateI)
    fix r assume "r \<in> set (flush s')"
    then have r: "r \<in> set (flush s)" by (simp add: fl)
    show "r < length (store s') \<and> subsections (store s' ! r) \<noteq> None"
      using wf_bound[OF wf r] wf_section[OF wf r] by (simp add: sto len keep) (simp add: h_def)
  next
    fix r assume "r \<in> set (all_subrefs s')"
    then have r: "r \<in> set (all_subrefs s)" by (simp add: as)
    show "r < length (store s') \<and> subsections (store s' ! r) = None"
      using wf_all_sub_bound[OF wf r] wf_all_sub_leaf[OF wf r]
      by (simp add: sto len keep) (simp add: h_def)
  next
    show "distinct (flush s')"
      using wf_distinct_flush[OF wf] by (simp add: fl)
  next
    show "distinct (all_subrefs s')"
      using wf_distinct_subs[OF wf] by (simp add: as)
  next
    show "case currentSubsection s' of
        None \<Rightarrow>
          (case currentSection s' of None \<Rightarrow> True | Some a \<Rightarrow> subrefs (store s') a = [])
      | Some b \<Rightarrow>
          (case currentSection s' of
             None \<Rightarrow> False
           | Some a \<Rightarrow> subrefs (store s') a \<noteq> [] \<and> last (subrefs (store s') a) = b)"
      using cs csub nosub by (simp add: s'_def sr)
  qed
  have old_tree: "tree_of h' r = tree_of h r" if "r \<in> set (sections s)" for r
    unfolding h'_def
  proof (rule tree_of_update_other)
    show "r \<noteq> a" using wf_distinct_flush[OF wf] that by (auto simp: fa)
    have "set (subrefs h r) \<subseteq> set (all_subrefs s)"
      using that by (auto simp: all_subrefs_def fa h_def)
    then show "a \<notin> set (subrefs h r)"
      using sub_ne by blast
  qed
  have mt: "map (tree_of h') (sections s) = map (tree_of h) (sections s)"
    by (intro map_cong refl old_tree)
  have cur: "tree_of h' a = add_content (l @ [LF]) (tree_of h a)"
    using al by (simp add: tree_of_def sr nosub add_content_def) (simp add: h'_def sec'_def sec_def)
  have "view_of s' = (view_of s)\<lparr>current := Some (tree_of h' a)\<rparr>"
    using cs by (simp add: view_of_def s'_def old_tree flip: h_def)
  moreover have "view_step (view_of s) l =
      (view_of s)\<lparr>current := Some (add_content (l @ [LF]) (tree_of h a))\<rparr>"
    using nm nsh ne cs csub by (simp add: view_step_def Let_def) (simp add: view_of_def h_def)
  ultimately have vw: "view_of s' = view_step (view_of s) l"
    by (simp add: cur)
  from st wf' vw show ?thesis by blast
qed

lemma step_skip:
  assumes "\<not> isMainHeading (trim l)"
    and "isSubHeading (trim l) \<and> currentSection s = None \<or>
         \<not> isSubHeading (trim l) \<and> (trim l = [] \<or> currentSection s = None \<and> currentSubsection s = None)"
  shows "step s l = Inr s \<and> view_of s = view_step (view_of s) l"
  using assms by (auto simp: step_def view_step_def Let_def view_of_def)

lemma step_view:
  assumes wf: "wf_state s"
  shows "\<exists>s'. step s l = Inr s' \<and> wf_state s' \<and> view_of s' = view_step (view_of s) l"
proof (cases "isMainHeading (trim l)")
  case True
  then show ?thesis using wf by (rule step_main)
next
  case nm: False
  show ?thesis
  proof (cases "isSubHeading (trim l)")
    case sh: True
    show ?thesis
    proof (cases "currentSection s")
      case None
      with nm sh wf step_skip[of l s] show ?thesis by auto
    next
      case (Some a)
      with nm sh wf show ?thesis by (intro step_sub)
    qed
  next
    case nsh: False
    show ?thesis
    proof (cases "trim l = []")
      case True
      with nm nsh wf step_skip[of l s] show ?thesis by auto
    next
      case ne: False
      show ?thesis
      proof (cases "currentSubsection s")
        case (Some b)
        with nm nsh ne wf show ?thesis by (intro step_content_sub)
      next
        case csub: None
        show ?thesis
        proof (cases "currentSection s")
          case None
          with nm nsh csub wf step_skip[of l s] show ?thesis by auto
        next
          case (Some a)
          with nm nsh ne csub wf show ?thesis by (intro step_content_sec)
        qed
      qed
    qed
  qed
qed

lemma run_view:
  "wf_state s \<Longrightarrow>
   \<exists>s'. run s ls = Inr s' \<and> wf_state s' \<and> view_of s' = foldl view_step (view_of s) ls"
proof (induction ls arbitrary: s)
  case Nil
  then show ?case by simp
next
  case (Cons l ls)
  from step_view[OF Cons.prems, of l] obtain s1 where
    s1: "step s l = Inr s1" "wf_state s1" "view_of s1 = view_step (view_of s) l"
    by blast
  from Cons.IH[OF s1(2)] obtain s2 where
    "run s1 ls = Inr s2" "wf_state s2" "view_of s2 = foldl view_step (view_of s1) ls"
    by blast
  with s1 show ?case by simp
qed

subsection \<open>The whole run, and reading the result\<close>

lemma sequence_map_Inr:
  "(\<And>x. x \<in> set xs \<Longrightarrow> f x = Inr (g x)) \<Longrightarrow> sequence (map f xs) = Inr (map g xs)"
  by (induction xs) simp_all

lemma read_leaf:
  "b < length h \<Longrightarrow> subsections (h ! b) = None \<Longrightarrow> read_tree (Suc n) h b = Inr (leaf_of h b)"
  by (simp add: deref_def leaf_of_def)

lemma read_section:
  assumes wf: "wf_state s" and a: "a \<in> set (flush s)"
  shows "read_tree (length (store s)) (store s) a = Inr (tree_of (store s) a)"
proof -
  define h where "h = store s"
  have al: "a < length h" using wf a unfolding h_def by (rule wf_bound)
  then obtain n where n: "length h = Suc n" by (cases "length h") auto
  from wf_section[OF wf a] obtain refs where refs: "subsections (h ! a) = Some refs"
    by (auto simp: h_def)
  then have sr: "subrefs h a = refs" by (simp add: subrefs_def)
  have "read_tree n h b = Inr (leaf_of h b)" if "b \<in> set refs" for b
  proof -
    have bin: "b \<in> set (all_subrefs s)"
      using a that sr by (auto simp: all_subrefs_def h_def)
    have bl: "b < length h" using wf_all_sub_bound[OF wf bin] by (simp add: h_def)
    have leaf: "subsections (h ! b) = None" using wf_all_sub_leaf[OF wf bin] by (simp add: h_def)
    have "b \<noteq> a" using wf a bin by (rule wf_sub_not_section)
    with al bl n obtain m where "n = Suc m" by (cases n) auto
    then show ?thesis using read_leaf[OF bl leaf, of m] by simp
  qed
  then have "sequence (map (read_tree n h) refs) = Inr (map (leaf_of h) refs)"
    by (rule sequence_map_Inr)
  then have "read_tree (length h) h a = Inr (tree_of h a)"
    using al by (simp add: n deref_def refs tree_of_def sr)
  then show ?thesis by (simp add: h_def)
qed

lemma parseLines_view:
  "parseLines ls input env =
     Inr \<lparr>doc_title = input_title input,
          documentNumber = makeDocumentNumber env,
          version = js ''1.0'',
          effectiveDate = makeEffectiveDate env,
          doc_sections = sections_of ls\<rparr>"
proof -
  from run_view[OF wf_initial, of ls] obtain s where
    s: "run initial_state ls = Inr s" "wf_state s"
       "view_of s = foldl view_step initial_view ls"
    by (auto simp: view_initial)
  have "sequence (map (read_tree (length (store s)) (store s)) (flush s)) =
      Inr (map (tree_of (store s)) (flush s))"
    using s(2) by (intro sequence_map_Inr read_section)
  then show ?thesis
    using s by (simp add: parseLines_def sections_of_def view_flush_of[symmetric])
qed

section \<open>Properties of the loop on views\<close>

lemma sub_not_main: "isSubHeading t \<Longrightarrow> \<not> isMainHeading t"
  by (simp add: isMainHeading_def isSubHeading_def)

lemma view_step_main:
  "isMainHeading (trim l) \<Longrightarrow>
   view_step v l =
     \<lparr>pushed = view_flush v,
      current = Some (SOPSection_tree (decimal (secNo v)) (sectionTitle (trim l)) [] (Some [])),
      subOpen = False, secNo = secNo v + 1, subNo = 1\<rparr>"
  by (simp add: view_step_def)

lemma view_step_sub:
  "isSubHeading (trim l) \<Longrightarrow> current v = Some t \<Longrightarrow>
   view_step v l =
     v\<lparr>current :=
         Some (add_subsection
                 (SOPSection_tree (t_number t @ js ''.'' @ decimal (subNo v))
                    (subsectionTitle (trim l)) [] None) t),
       subOpen := True, subNo := subNo v + 1\<rparr>"
  by (simp add: view_step_def sub_not_main)

lemma view_step_content:
  "\<not> isMainHeading (trim l) \<Longrightarrow> \<not> isSubHeading (trim l) \<Longrightarrow> trim l \<noteq> [] \<Longrightarrow>
   current v = Some t \<Longrightarrow>
   view_step v l =
     (if subOpen v then v\<lparr>current := Some (add_content_last_sub (l @ [LF]) t)\<rparr>
      else v\<lparr>current := Some (add_content (l @ [LF]) t)\<rparr>)"
  by (simp add: view_step_def)

lemma view_step_blank:
  "trim l = [] \<Longrightarrow> view_step v l = v"
  by (simp add: view_step_def isMainHeading_def isSubHeading_def startsWith_def js_def)

lemma view_step_closed:
  "\<not> isMainHeading (trim l) \<Longrightarrow> current v = None \<Longrightarrow> view_step v l = v"
  by (simp add: view_step_def Let_def)

text \<open>Every line keeps the numbers of the sections; only a main heading adds one.\<close>

lemma view_step_cases:
  obtains
    (main) "isMainHeading (trim l)"
  | (closed) "\<not> isMainHeading (trim l)" "current v = None" "view_step v l = v"
  | (blank) "\<not> isMainHeading (trim l)" "\<not> isSubHeading (trim l)" "trim l = []"
      "view_step v l = v"
  | (sub) t where "\<not> isMainHeading (trim l)" "isSubHeading (trim l)" "current v = Some t"
  | (content) t where "\<not> isMainHeading (trim l)" "\<not> isSubHeading (trim l)" "trim l \<noteq> []"
      "current v = Some t"
proof (cases "isMainHeading (trim l)")
  case True
  then show ?thesis by (rule main)
next
  case nm: False
  show ?thesis
  proof (cases "current v")
    case None
    with nm show ?thesis by (intro closed view_step_closed)
  next
    case (Some t)
    show ?thesis
    proof (cases "isSubHeading (trim l)")
      case True
      with nm Some show ?thesis by (intro sub)
    next
      case nsh: False
      show ?thesis
      proof (cases "trim l = []")
        case True
        with nm nsh show ?thesis by (intro blank view_step_blank)
      next
        case False
        with nm nsh Some show ?thesis by (intro content)
      qed
    qed
  qed
qed

lemma numbers_step:
  "map t_number (view_flush (view_step v l)) =
     map t_number (view_flush v) @ (if isMainHeading (trim l) then [decimal (secNo v)] else [])"
proof (cases rule: view_step_cases[where l=l and v=v])
  case main
  then show ?thesis by (simp add: view_step_main view_flush_def)
next
  case closed
  then show ?thesis by simp
next
  case blank
  then show ?thesis by simp
next
  case (sub t)
  then show ?thesis
    by (simp add: view_step_sub view_flush_def add_subsection_def)
next
  case (content t)
  then show ?thesis
    by (simp add: view_step_content view_flush_def add_content_def add_content_last_sub_def)
qed

lemma secNo_step:
  "secNo (view_step v l) = secNo v + (if isMainHeading (trim l) then 1 else 0)"
proof (cases rule: view_step_cases[where l=l and v=v])
  case main
  then show ?thesis by (simp add: view_step_main)
next
  case closed
  then show ?thesis by simp
next
  case blank
  then show ?thesis by simp
next
  case (sub t)
  then show ?thesis by (simp add: view_step_sub)
next
  case (content t)
  then show ?thesis by (simp add: view_step_content)
qed

lemma numbers_run:
  "map t_number (view_flush (foldl view_step v ls)) =
     map t_number (view_flush v) @ map decimal [secNo v ..< secNo v + count_main ls]"
proof (induction ls arbitrary: v)
  case Nil
  then show ?case by (simp add: count_main_def)
next
  case (Cons l ls)
  show ?case
  proof (cases "isMainHeading (trim l)")
    case True
    then have "count_main (l # ls) = Suc (count_main ls)" by (simp add: count_main_def)
    moreover have "[secNo v..<Suc (secNo v + count_main ls)] =
        secNo v # [Suc (secNo v)..<Suc (secNo v + count_main ls)]"
      by (simp add: upt_conv_Cons)
    ultimately show ?thesis
      using True by (simp add: Cons.IH numbers_step secNo_step)
  next
    case False
    then have "count_main (l # ls) = count_main ls" by (simp add: count_main_def)
    then show ?thesis
      using False by (simp add: Cons.IH numbers_step secNo_step)
  qed
qed

lemma numbers_sections_of:
  "map t_number (sections_of ls) = map decimal [1 ..< Suc (count_main ls)]"
  using numbers_run[of initial_view ls]
  by (simp add: sections_of_def) (simp add: initial_view_def view_flush_def)

subsection \<open>The reachable views\<close>

lemma view_inv_initial: "view_inv initial_view"
  by (simp add: view_inv_def initial_view_def view_flush_def)

lemma expected_add_content [simp]:
  "expected_subnumbers (add_content c t) = expected_subnumbers t"
  by (simp add: expected_subnumbers_def add_content_def subtrees_def)

lemma subtrees_add_content [simp]: "subtrees (add_content c t) = subtrees t"
  by (simp add: add_content_def subtrees_def)

lemma subtrees_add_subsection [simp]: "subtrees (add_subsection u t) = subtrees t @ [u]"
  by (simp add: add_subsection_def subtrees_def)

lemma subtrees_add_content_last_sub:
  "subtrees (add_content_last_sub c t) = butlast (subtrees t) @ [add_content c (last (subtrees t))]"
  by (simp add: add_content_last_sub_def subtrees_def)

lemma number_add_content [simp]: "t_number (add_content c t) = t_number t"
  by (simp add: add_content_def)

lemma number_add_subsection [simp]: "t_number (add_subsection u t) = t_number t"
  by (simp add: add_subsection_def)

lemma number_add_content_last_sub [simp]: "t_number (add_content_last_sub c t) = t_number t"
  by (simp add: add_content_last_sub_def)

lemma map_number_last_changed:
  "xs \<noteq> [] \<Longrightarrow> map t_number (butlast xs @ [add_content c (last xs)]) = map t_number xs"
  by (induction xs) auto

lemma numbers_add_content_last_sub:
  "subtrees t \<noteq> [] \<Longrightarrow>
   map t_number (subtrees (add_content_last_sub c t)) = map t_number (subtrees t)"
  unfolding subtrees_add_content_last_sub by (rule map_number_last_changed)

lemma expected_add_content_last_sub:
  "subtrees t \<noteq> [] \<Longrightarrow> expected_subnumbers (add_content_last_sub c t) = expected_subnumbers t"
  by (simp add: expected_subnumbers_def subtrees_add_content_last_sub)

lemma expected_add_subsection:
  "expected_subnumbers (add_subsection u t) =
     expected_subnumbers t @ [t_number t @ js ''.'' @ decimal (Suc (length (subtrees t)))]"
  by (simp add: expected_subnumbers_def)

lemma view_inv_step:
  assumes inv: "view_inv v"
  shows "view_inv (view_step v l)"
proof (cases rule: view_step_cases[where l=l and v=v])
  case main
  have "expected_subnumbers (SOPSection_tree n ti c (Some [])) = []" for n ti c
    by (simp add: expected_subnumbers_def subtrees_def)
  then show ?thesis
    using inv main
    by (auto simp: view_step_main view_inv_def view_flush_def subtrees_def)
next
  case closed
  with inv show ?thesis by simp
next
  case blank
  with inv show ?thesis by simp
next
  case (sub t)
  from inv sub have t: "t_subsections t \<noteq> None" "map t_number (subtrees t) = expected_subnumbers t"
      "subNo v = Suc (length (subtrees t))"
    and old: "\<forall>u \<in> set (pushed v).
        t_subsections u \<noteq> None \<and> map t_number (subtrees u) = expected_subnumbers u"
    by (auto simp: view_inv_def view_flush_def)
  show ?thesis
    using sub t old
    by (simp add: view_step_sub view_inv_def view_flush_def expected_add_subsection)
      (simp add: add_subsection_def)
next
  case (content t)
  from inv content have t: "t_subsections t \<noteq> None" "map t_number (subtrees t) = expected_subnumbers t"
      "subNo v = Suc (length (subtrees t))" "subOpen v = (subtrees t \<noteq> [])"
    and old: "\<forall>u \<in> set (pushed v).
        t_subsections u \<noteq> None \<and> map t_number (subtrees u) = expected_subnumbers u"
    by (auto simp: view_inv_def view_flush_def)
  show ?thesis
  proof (cases "subOpen v")
    case True
    with t have ne: "subtrees t \<noteq> []" by simp
    show ?thesis
      using content t old True ne
      by (simp add: view_step_content view_inv_def view_flush_def expected_add_content_last_sub
          numbers_add_content_last_sub)
        (simp add: add_content_last_sub_def subtrees_def)
  next
    case False
    show ?thesis
      using content t old False
      by (simp add: view_step_content view_inv_def view_flush_def)
        (simp add: add_content_def)
  qed
qed

lemma view_inv_run: "view_inv v \<Longrightarrow> view_inv (foldl view_step v ls)"
  by (induction ls arbitrary: v) (simp_all add: view_inv_step)

lemma view_inv_sections: "view_inv (foldl view_step initial_view ls)"
  by (rule view_inv_run) (rule view_inv_initial)

lemma sub_numbers_sections_of:
  "t \<in> set (sections_of ls) \<Longrightarrow>
   t_subsections t \<noteq> None \<and> map t_number (subtrees t) = expected_subnumbers t"
  using view_inv_sections[of ls] by (simp add: view_inv_def sections_of_def)

subsection \<open>Headings before any section\<close>

lemma closed_run:
  "\<forall>p \<in> set pre. \<not> isMainHeading (trim p) \<Longrightarrow> foldl view_step initial_view pre = initial_view"
proof (induction pre)
  case Nil
  then show ?case by simp
next
  case (Cons p pre)
  then have "view_step initial_view p = initial_view"
    by (intro view_step_closed) (simp_all add: initial_view_def)
  with Cons show ?case by simp
qed

lemma orphan_dropped:
  assumes "\<forall>p \<in> set pre. \<not> isMainHeading (trim p)" and "isSubHeading (trim l)"
  shows "sections_of (pre @ l # post) = sections_of (pre @ post)"
proof -
  have "view_step initial_view l = initial_view"
    using assms(2) by (intro view_step_closed sub_not_main) (simp_all add: initial_view_def)
  then show ?thesis
    by (simp add: sections_of_def closed_run[OF assms(1)])
qed

lemma length_sections_of: "length (sections_of ls) = count_main ls"
  using arg_cong[OF numbers_sections_of[of ls], of length] by simp

lemma count_main_without:
  "\<not> isMainHeading (trim l) \<Longrightarrow> count_main (pre @ l # post) = count_main (pre @ post)"
  by (simp add: count_main_def)

subsection \<open>Content lines\<close>

lemma startsWith_append:
  assumes "startsWith s (p @ q)"
  shows "startsWith s p"
proof -
  from assms have "take (length p) (take (length p + length q) s) = take (length p) (p @ q)"
    by (simp add: startsWith_def)
  then show ?thesis by (simp add: startsWith_def)
qed

lemma content_line_cases:
  "isContentLine l \<longleftrightarrow> \<not> isMainHeading (trim l) \<and> \<not> isSubHeading (trim l) \<and> trim l \<noteq> []"
proof -
  have "js ''####'' = js ''###'' @ js ''#''" by (simp add: js_def)
  then have "startsWith t (js ''###'')" if "startsWith t (js ''####'')" for t
    using that startsWith_append[of t "js ''###''" "js ''#''"] by simp
  then show ?thesis
    by (auto simp: isContentLine_def isMainHeading_def isSubHeading_def)
qed

lemma all_content_add_content:
  "subtrees t = [] \<Longrightarrow> all_content (add_content c t) = all_content t @ c"
  by (simp add: all_content_def) (simp add: add_content_def)

lemma concat_content_last:
  "xs \<noteq> [] \<Longrightarrow>
   concat (map t_content (butlast xs @ [add_content c (last xs)])) = concat (map t_content xs) @ c"
  by (induction xs) (auto simp: add_content_def)

lemma all_content_add_content_last_sub:
  "subtrees t \<noteq> [] \<Longrightarrow> all_content (add_content_last_sub c t) = all_content t @ c"
proof -
  assume ne: "subtrees t \<noteq> []"
  have "concat (map t_content (subtrees (add_content_last_sub c t))) =
      concat (map t_content (subtrees t)) @ c"
    unfolding subtrees_add_content_last_sub using ne by (rule concat_content_last)
  moreover have "t_content (add_content_last_sub c t) = t_content t"
    by (simp add: add_content_last_sub_def)
  ultimately show ?thesis by (simp add: all_content_def)
qed

lemma all_content_add_subsection:
  "all_content (add_subsection (SOPSection_tree n ti [] None) t) = all_content t"
  by (simp add: all_content_def) (simp add: add_subsection_def)

lemma all_content_step:
  assumes inv: "view_inv v"
  shows "concat (map all_content (view_flush (view_step v l))) =
     concat (map all_content (view_flush v)) @
       (if isContentLine l \<and> current v \<noteq> None then l @ [LF] else [])"
proof (cases rule: view_step_cases[where l=l and v=v])
  case main
  then show ?thesis
    by (simp add: view_step_main view_flush_def content_line_cases)
      (simp add: all_content_def subtrees_def)
next
  case closed
  then show ?thesis by simp
next
  case blank
  then show ?thesis by (simp add: content_line_cases)
next
  case (sub t)
  then show ?thesis
    by (simp add: view_step_sub view_flush_def content_line_cases all_content_add_subsection)
next
  case (content t)
  from inv content have so: "subOpen v = (subtrees t \<noteq> [])" by (simp add: view_inv_def)
  from content have "isContentLine l" by (simp add: content_line_cases)
  then show ?thesis
    using content so
    by (simp add: view_step_content view_flush_def all_content_add_content
        all_content_add_content_last_sub)
qed

lemma current_step_open: "current v \<noteq> None \<Longrightarrow> current (view_step v l) \<noteq> None"
proof (cases rule: view_step_cases[where l=l and v=v])
  case main
  then show ?thesis by (simp add: view_step_main)
next
  case closed
  then show "current v \<noteq> None \<Longrightarrow> ?thesis" by simp
next
  case blank
  then show "current v \<noteq> None \<Longrightarrow> ?thesis" by simp
next
  case (sub t)
  then show ?thesis by (simp add: view_step_sub)
next
  case (content t)
  then show ?thesis by (simp add: view_step_content)
qed

lemma all_content_run_open:
  "view_inv v \<Longrightarrow> current v \<noteq> None \<Longrightarrow>
   concat (map all_content (view_flush (foldl view_step v ls))) =
     concat (map all_content (view_flush v)) @
     concat (map (\<lambda>l. l @ [LF]) (filter isContentLine ls))"
proof (induction ls arbitrary: v)
  case Nil
  then show ?case by simp
next
  case (Cons l ls)
  have "concat (map all_content (view_flush (foldl view_step (view_step v l) ls))) =
     concat (map all_content (view_flush (view_step v l))) @
     concat (map (\<lambda>l. l @ [LF]) (filter isContentLine ls))"
    using Cons.prems by (intro Cons.IH view_inv_step current_step_open)
  then show ?case
    using Cons.prems by (simp add: all_content_step)
qed

lemma all_content_run_closed:
  "view_inv v \<Longrightarrow> current v = None \<Longrightarrow>
   concat (map all_content (view_flush (foldl view_step v ls))) =
     concat (map (\<lambda>l. l @ [LF])
       (filter isContentLine (dropWhile (\<lambda>l. \<not> isMainHeading (trim l)) ls)))"
proof (induction ls)
  case Nil
  then show ?case by (simp add: view_inv_def view_flush_def)
next
  case (Cons l ls)
  show ?case
  proof (cases "isMainHeading (trim l)")
    case True
    have "concat (map all_content (view_flush (foldl view_step (view_step v l) ls))) =
       concat (map all_content (view_flush (view_step v l))) @
       concat (map (\<lambda>l. l @ [LF]) (filter isContentLine ls))"
      using Cons.prems(1) True
      by (intro all_content_run_open view_inv_step) (simp_all add: view_step_main)
    moreover have "view_flush v = []"
      using Cons.prems by (simp add: view_inv_def view_flush_def)
    moreover have "\<not> isContentLine l"
      using True by (simp add: content_line_cases)
    ultimately show ?thesis
      using True Cons.prems(1) by (simp add: all_content_step)
  next
    case False
    then have "view_step v l = v"
      using Cons.prems(2) by (intro view_step_closed)
    with False Cons show ?thesis by simp
  qed
qed

lemma all_content_sections_of:
  "concat (map all_content (sections_of ls)) =
     concat (map (\<lambda>l. l @ [LF])
       (filter isContentLine (dropWhile (\<lambda>l. \<not> isMainHeading (trim l)) ls)))"
  unfolding sections_of_def
  by (rule all_content_run_closed) (simp_all add: view_inv_initial, simp add: initial_view_def)

subsection \<open>Headings with more than four marks\<close>

lemma trim_no_trailing: "dropWhile isWhiteSpace (rev (trim l)) = rev (trim l)"
  by (simp add: trim_def)

lemma hash_not_space: "\<not> isWhiteSpace 0x23"
  by (simp add: isWhiteSpace_def)

lemma hash_not_digit: "\<not> isDigit 0x23"
  by (simp add: isDigit_def)

lemma startsWith_split: "startsWith s p \<Longrightarrow> s = p @ drop (length p) s"
  by (metis append_take_drop_id startsWith_def)

lemma subsectionTitle_hashes:
  assumes "startsWith (trim l) (js ''#####'')"
  shows "subsectionTitle (trim l) = drop 4 (trim l)"
proof -
  define t where "t = trim l"
  define rest where "rest = drop (length (js ''#####'')) t"
  from assms have "t = js ''#####'' @ rest"
    unfolding rest_def t_def by (rule startsWith_split)
  then have t: "t = 0x23 # 0x23 # 0x23 # 0x23 # 0x23 # rest"
    by (simp add: js_def)
  have d4: "drop 4 t = 0x23 # rest" by (simp add: t)
  have r1: "replace_prefix re_hash4 t = 0x23 # rest"
    by (simp add: replace_prefix_def re_hash4_def match_literal_def startsWith_def
        match_spaces0_def js_def t hash_not_space)
  have r2: "replace_prefix re_num_num (0x23 # rest) = 0x23 # rest"
    by (simp add: replace_prefix_def re_num_num_def match_digits_def hash_not_digit)
  have r3: "replace_prefix re_num_num_dot (0x23 # rest) = 0x23 # rest"
    by (simp add: replace_prefix_def re_num_num_dot_def match_digits_def hash_not_digit)
  have "dropWhile isWhiteSpace (rev t) = rev t"
    unfolding t_def by (rule trim_no_trailing)
  then have "rev t = [] \<or> \<not> isWhiteSpace (hd (rev t))"
    by (simp only: dropWhile_eq_self_iff)
  moreover have "hd (rev t) = hd (rev rest)" if "rev rest \<noteq> []"
    using that by (simp add: t)
  ultimately have "rev rest = [] \<or> \<not> isWhiteSpace (hd (rev rest))"
    by (auto simp: t)
  then have "dropWhile isWhiteSpace (rev rest @ [0x23]) = rev rest @ [0x23]"
    by (cases "rev rest") (auto simp: hash_not_space)
  then have "trim (0x23 # rest) = 0x23 # rest"
    by (simp add: trim_def hash_not_space)
  then show ?thesis
    unfolding t_def[symmetric] by (simp add: subsectionTitle_def r1 r2 r3 d4)
qed

lemma hashes_sub_heading:
  assumes "startsWith t (js ''#####'')"
  shows "isSubHeading t"
proof -
  have "js ''#####'' = js ''####'' @ js ''#''" by (simp add: js_def)
  with assms show ?thesis
    using startsWith_append[of t "js ''####''" "js ''#''"] by (simp add: isSubHeading_def)
qed

lemma hashes_title_start:
  assumes "startsWith t (js ''#####'')"
  shows "startsWith (drop 4 t) (js ''#'')"
proof -
  define rest where "rest = drop (length (js ''#####'')) t"
  from assms have "t = js ''#####'' @ rest"
    unfolding rest_def by (rule startsWith_split)
  then have "t = 0x23 # 0x23 # 0x23 # 0x23 # 0x23 # rest"
    by (simp add: js_def)
  then have "drop 4 t = 0x23 # rest"
    by simp
  then show ?thesis by (simp add: startsWith_def js_def)
qed

section \<open>Where the lines of a text end up\<close>

subsection \<open>Runs of lines\<close>

lemma heading_line_cases:
  "isHeadingLine l \<longleftrightarrow> isMainHeading (trim l) \<or> isSubHeading (trim l)"
proof -
  have "js ''####'' = js ''###'' @ js ''#''" by (simp add: js_def)
  then have "startsWith t (js ''###'')" if "startsWith t (js ''####'')" for t
    using that startsWith_append[of t "js ''###''" "js ''#''"] by simp
  then show ?thesis
    by (auto simp: isHeadingLine_def isMainHeading_def isSubHeading_def)
qed

lemma content_line_heading: "isContentLine l \<longleftrightarrow> trim l \<noteq> [] \<and> \<not> isHeadingLine l"
  by (simp add: isContentLine_def isHeadingLine_def)

lemma content_of_Nil [simp]: "content_of [] = []"
  by (simp add: content_of_def)

lemma content_of_append [simp]: "content_of (xs @ ys) = content_of xs @ content_of ys"
  by (simp add: content_of_def)

lemma content_of_Cons:
  "content_of (l # ls) = (if isContentLine l then l @ [LF] else []) @ content_of ls"
  by (simp add: content_of_def)

lemma after_last_main_snoc:
  "after_last_main (ls @ [l]) = (if isMainHeading (trim l) then [] else after_last_main ls @ [l])"
  by (simp add: after_last_main_def)

lemma after_last_heading_snoc:
  "after_last_heading (ls @ [l]) = (if isHeadingLine l then [] else after_last_heading ls @ [l])"
  by (simp add: after_last_heading_def)

lemma until_next_heading_Cons:
  "until_next_heading (l # ls) = (if isHeadingLine l then [] else l # until_next_heading ls)"
  by (simp add: until_next_heading_def)

lemma until_next_main_Cons:
  "until_next_main (l # ls) = (if isMainHeading (trim l) then [] else l # until_next_main ls)"
  by (simp add: until_next_main_def)

lemma count_sub_Nil [simp]: "count_sub [] = 0"
  by (simp add: count_sub_def)

lemma count_sub_Cons:
  "count_sub (l # ls) = (if isSubHeading (trim l) then 1 else 0) + count_sub ls"
  by (simp add: count_sub_def)

lemma count_main_snoc:
  "count_main (ls @ [l]) = count_main ls + (if isMainHeading (trim l) then 1 else 0)"
  by (simp add: count_main_def)

lemma count_sub_snoc:
  "count_sub (ls @ [l]) = count_sub ls + (if isSubHeading (trim l) then 1 else 0)"
  by (simp add: count_sub_def)

lemma add_content_Nil [simp]: "add_content [] t = t"
  by (simp add: add_content_def)

lemma add_content_twice [simp]: "add_content c (add_content b t) = add_content (b @ c) t"
  by (simp add: add_content_def)

lemma content_add_content [simp]: "t_content (add_content c t) = t_content t @ c"
  by (simp add: add_content_def)

lemma content_add_subsection [simp]: "t_content (add_subsection u t) = t_content t"
  by (simp add: add_subsection_def)

lemma content_add_content_last_sub [simp]: "t_content (add_content_last_sub c t) = t_content t"
  by (simp add: add_content_last_sub_def)

lemma title_add_content [simp]: "t_title (add_content c t) = t_title t"
  by (simp add: add_content_def)

lemma title_add_subsection [simp]: "t_title (add_subsection u t) = t_title t"
  by (simp add: add_subsection_def)

lemma title_add_content_last_sub [simp]: "t_title (add_content_last_sub c t) = t_title t"
  by (simp add: add_content_last_sub_def)

subsection \<open>The open section to the end of the text\<close>

lemma settled_Nil:
  "current v = Some t \<Longrightarrow> settled v t [] (view_flush v)"
  by (simp add: settled_def view_flush_def until_next_heading_def until_next_main_def
      butlast_conv_take last_conv_nth)

lemma settled_main:
  assumes cur: "current v = Some t" and m: "isMainHeading (trim l)"
    and nx: "settled (view_step v l) u ls F"
  shows "settled v t (l # ls) F"
proof -
  have p: "pushed (view_step v l) = pushed v @ [t]"
    using m cur by (simp add: view_step_main view_flush_def)
  from nx have len: "Suc (length (pushed v)) < length F"
    and tk: "take (Suc (length (pushed v))) F = pushed v @ [t]"
    by (simp_all add: settled_def p)
  from tk have "take (length (pushed v)) (take (Suc (length (pushed v))) F) = pushed v"
    by simp
  then have tk0: "take (length (pushed v)) F = pushed v"
    by (simp add: min_def)
  from tk have "take (Suc (length (pushed v))) F ! length (pushed v) = t"
    by simp
  then have nth: "F ! length (pushed v) = t"
    by simp
  have "isHeadingLine l" using m by (simp add: heading_line_cases)
  then show ?thesis
    using len tk0 nth m
    by (simp add: settled_def until_next_heading_Cons until_next_main_Cons butlast_conv_take
        last_conv_nth)
qed

lemma settled_sub:
  assumes cur: "current v = Some t" and sh: "isSubHeading (trim l)"
    and nx: "settled (view_step v l) (add_subsection u t) ls F"
    and p: "pushed (view_step v l) = pushed v"
  shows "settled v t (l # ls) F"
proof -
  define s where "s = F ! length (pushed v)"
  define n where "n = length (subtrees t)"
  from nx have len: "length (pushed v) < length F"
    and tk: "take (length (pushed v)) F = pushed v"
    and num: "t_number s = t_number t" and ti: "t_title s = t_title t"
    and le: "length (subtrees s) = Suc n + count_sub (until_next_main ls)"
    and co: "t_content s = t_content t"
    and subs: "take n (subtrees s) = subtrees t"
    by (simp_all add: settled_def p s_def n_def)
  have h: "isHeadingLine l" using sh by (simp add: heading_line_cases)
  have nm: "\<not> isMainHeading (trim l)" using sh by (rule sub_not_main)
  have "take (n - 1) (take n (subtrees s)) = take (n - 1) (subtrees t)"
    by (simp only: subs)
  then have b: "take (n - 1) (subtrees s) = butlast (subtrees t)"
    by (simp add: min_def butlast_conv_take n_def)
  have l: "subtrees s ! (n - 1) = last (subtrees t)" if "subtrees t \<noteq> []"
  proof -
    from that have "n - 1 < n" by (simp add: n_def)
    then have "subtrees s ! (n - 1) = take n (subtrees s) ! (n - 1)" by simp
    also have "\<dots> = subtrees t ! (n - 1)" by (simp only: subs)
    also have "\<dots> = last (subtrees t)" using that by (simp add: last_conv_nth n_def)
    finally show ?thesis .
  qed
  show ?thesis
    using len tk num ti le co b l h nm sh
    by (simp add: settled_def until_next_heading_Cons until_next_main_Cons count_sub_Cons
        s_def[symmetric] n_def[symmetric])
qed

lemma settled_content:
  assumes cur: "current v = Some t" and c: "isContentLine l"
    and so: "subOpen v = (subtrees t \<noteq> [])"
    and nx: "settled (view_step v l)
               (if subOpen v then add_content_last_sub (l @ [LF]) t
                else add_content (l @ [LF]) t) ls F"
    and p: "pushed (view_step v l) = pushed v"
  shows "settled v t (l # ls) F"
proof -
  have h: "\<not> isHeadingLine l" using c by (simp add: content_line_heading)
  have nm: "\<not> isMainHeading (trim l)" "\<not> isSubHeading (trim l)"
    using c by (simp_all add: content_line_cases)
  show ?thesis
  proof (cases "subtrees t = []")
    case True
    with so nx have "settled (view_step v l) (add_content (l @ [LF]) t) ls F" by simp
    then show ?thesis
      using True h c nm
      by (simp add: settled_def p until_next_heading_Cons until_next_main_Cons count_sub_Cons
          content_of_Cons)
  next
    case False
    with so nx have "settled (view_step v l) (add_content_last_sub (l @ [LF]) t) ls F" by simp
    then show ?thesis
      using False h c nm
      by (simp add: settled_def p until_next_heading_Cons until_next_main_Cons count_sub_Cons
          content_of_Cons subtrees_add_content_last_sub)
  qed
qed

lemma settled_blank:
  assumes b: "trim l = []" and nx: "settled v t ls F"
  shows "settled v t (l # ls) F"
proof -
  have "\<not> isHeadingLine l"
    using b by (simp add: isHeadingLine_def startsWith_def js_def)
  moreover have "\<not> isContentLine l"
    using b by (simp add: isContentLine_def)
  moreover have "\<not> isMainHeading (trim l)" "\<not> isSubHeading (trim l)"
    using b by (simp_all add: isMainHeading_def isSubHeading_def startsWith_def js_def)
  ultimately show ?thesis
    using nx
    by (simp add: settled_def until_next_heading_Cons until_next_main_Cons count_sub_Cons
        content_of_Cons cong: if_cong)
qed

lemma settled_run:
  "view_inv v \<Longrightarrow> current v = Some t \<Longrightarrow>
   settled v t ls (view_flush (foldl view_step v ls))"
proof (induction ls arbitrary: v t)
  case Nil
  then show ?case by (simp add: settled_Nil)
next
  case (Cons l ls)
  have inv': "view_inv (view_step v l)"
    using Cons.prems(1) by (rule view_inv_step)
  show ?case
  proof (cases rule: view_step_cases[where l=l and v=v])
    case main
    then have "current (view_step v l) =
        Some (SOPSection_tree (decimal (secNo v)) (sectionTitle (trim l)) [] (Some []))"
      by (simp add: view_step_main)
    from Cons.IH[OF inv' this] show ?thesis
      using Cons.prems(2) main by (simp add: settled_main)
  next
    case closed
    with Cons.prems(2) show ?thesis by simp
  next
    case blank
    with Cons.IH[OF Cons.prems] show ?thesis
      by (simp add: settled_blank)
  next
    case (sub t')
    with Cons.prems(2) have tt: "t' = t" by simp
    define u where "u = SOPSection_tree (t_number t @ js ''.'' @ decimal (subNo v))
                    (subsectionTitle (trim l)) [] None"
    have st: "view_step v l =
        v\<lparr>current := Some (add_subsection u t), subOpen := True, subNo := subNo v + 1\<rparr>"
      using sub tt by (simp add: view_step_sub u_def)
    then have "current (view_step v l) = Some (add_subsection u t)" by simp
    from Cons.IH[OF inv' this] show ?thesis
      using Cons.prems(2) sub(2) st by (intro settled_sub[where u=u]) simp_all
  next
    case (content t')
    with Cons.prems(2) have tt: "t' = t" by simp
    have c: "isContentLine l" using content by (simp add: content_line_cases)
    have so: "subOpen v = (subtrees t \<noteq> [])"
      using Cons.prems by (simp add: view_inv_def)
    have st: "view_step v l =
       (if subOpen v then v\<lparr>current := Some (add_content_last_sub (l @ [LF]) t)\<rparr>
        else v\<lparr>current := Some (add_content (l @ [LF]) t)\<rparr>)"
      using content tt by (simp add: view_step_content)
    then have "current (view_step v l) =
        Some (if subOpen v then add_content_last_sub (l @ [LF]) t
              else add_content (l @ [LF]) t)"
      by simp
    from Cons.IH[OF inv' this] show ?thesis
      using Cons.prems(2) c so st by (intro settled_content) simp_all
  qed
qed

subsection \<open>The view after a prefix of the text\<close>

lemma count_main_zero: "count_main ls = 0 \<longleftrightarrow> (\<forall>p \<in> set ls. \<not> isMainHeading (trim p))"
  by (simp add: count_main_def filter_empty_conv)

lemma innermost_new [simp]: "innermost_content (SOPSection_tree n ti c (Some [])) = c"
  by (simp add: innermost_content_def subtrees_def)

lemma subtrees_new [simp]: "subtrees (SOPSection_tree n ti c (Some [])) = []"
  by (simp add: subtrees_def)

lemma innermost_add_subsection [simp]:
  "innermost_content (add_subsection u t) = t_content u"
  by (simp add: innermost_content_def)

lemma innermost_add_content:
  "subtrees t = [] \<Longrightarrow> innermost_content (add_content c t) = innermost_content t @ c"
  by (simp add: innermost_content_def)

lemma innermost_add_content_last_sub:
  "subtrees t \<noteq> [] \<Longrightarrow>
   innermost_content (add_content_last_sub c t) = innermost_content t @ c"
  by (simp add: innermost_content_def subtrees_add_content_last_sub)

lemma length_subtrees_add_content_last_sub:
  "subtrees t \<noteq> [] \<Longrightarrow> length (subtrees (add_content_last_sub c t)) = length (subtrees t)"
  by (simp add: subtrees_add_content_last_sub)

text \<open>
  The view after a prefix that holds a first-level heading: the open section stands
  after the sealed ones, it has one subsection for each second-level heading read since
  its own heading, and its innermost node holds the content lines read since the last
  heading.
\<close>

lemma reach_open:
  "0 < count_main pre \<Longrightarrow>
   \<exists>t. current (foldl view_step initial_view pre) = Some t \<and>
       length (pushed (foldl view_step initial_view pre)) = count_main pre - 1 \<and>
       length (subtrees t) = count_sub (after_last_main pre) \<and>
       innermost_content t = content_of (after_last_heading pre)"
proof (induction pre rule: rev_induct)
  case Nil
  then show ?case by (simp add: count_main_def)
next
  case (snoc l pre)
  define v where "v = foldl view_step initial_view pre"
  have inv: "view_inv v" unfolding v_def by (rule view_inv_sections)
  have fl: "length (view_flush v) = count_main pre"
    using length_sections_of[of pre] by (simp add: sections_of_def v_def)
  have step: "foldl view_step initial_view (pre @ [l]) = view_step v l"
    by (simp add: v_def)
  show ?case
  proof (cases rule: view_step_cases[where l=l and v=v])
    case main
    then have "isHeadingLine l" by (simp add: heading_line_cases)
    then show ?thesis
      using main fl
      by (simp add: step view_step_main count_main_snoc after_last_main_snoc
          after_last_heading_snoc count_sub_def flip: v_def)
  next
    case closed
    then have "\<not> 0 < count_main pre"
      using snoc.IH by (auto simp: v_def)
    with closed(1) snoc.prems show ?thesis by (simp add: count_main_snoc)
  next
    case blank
    then have "\<not> isHeadingLine l" "\<not> isContentLine l"
      by (simp_all add: heading_line_cases isContentLine_def)
    with blank snoc show ?thesis
      by (simp add: step count_main_snoc after_last_main_snoc after_last_heading_snoc
          count_sub_snoc content_of_Cons flip: v_def)
  next
    case (sub t)
    with snoc have "0 < count_main pre" by (simp add: count_main_snoc)
    from snoc.IH[OF this] sub(3) have
      ih: "length (pushed v) = count_main pre - 1"
        "length (subtrees t) = count_sub (after_last_main pre)"
      by (simp_all add: v_def)
    have "isHeadingLine l" using sub by (simp add: heading_line_cases)
    then show ?thesis
      using sub ih
      by (simp add: step view_step_sub count_main_snoc after_last_main_snoc
          after_last_heading_snoc count_sub_snoc flip: v_def)
  next
    case (content t)
    with snoc have "0 < count_main pre" by (simp add: count_main_snoc)
    from snoc.IH[OF this] content(4) have
      ih: "length (pushed v) = count_main pre - 1"
        "length (subtrees t) = count_sub (after_last_main pre)"
        "innermost_content t = content_of (after_last_heading pre)"
      by (simp_all add: v_def)
    from inv content(4) have so: "subOpen v = (subtrees t \<noteq> [])"
      by (simp add: view_inv_def)
    have c: "isContentLine l" "\<not> isHeadingLine l"
      using content by (simp_all add: content_line_cases heading_line_cases)
    show ?thesis
    proof (cases "subtrees t = []")
      case True
      with ih(2) have "count_sub (after_last_main pre) = 0" by simp
      then show ?thesis
        using content c ih(1,3) so True
        by (simp add: step view_step_content count_main_snoc after_last_main_snoc
            after_last_heading_snoc count_sub_snoc content_of_Cons innermost_add_content
            flip: v_def)
    next
      case False
      then show ?thesis
        using content c ih so
        by (simp add: step view_step_content count_main_snoc after_last_main_snoc
            after_last_heading_snoc count_sub_snoc content_of_Cons
            innermost_add_content_last_sub length_subtrees_add_content_last_sub flip: v_def)
    qed
  qed
qed


subsection \<open>A line at any place of the text\<close>


text \<open>A second-level heading at any place of a text, read while a section is open.\<close>

lemma sub_heading_settled:
  assumes sh: "isSubHeading (trim line)" and op: "0 < count_main pre"
  shows "count_main pre - 1 < length (sections_of (pre @ line # post)) \<and>
    length (subtrees (sections_of (pre @ line # post) ! (count_main pre - 1))) =
      Suc (count_sub (after_last_main pre) + count_sub (until_next_main post)) \<and>
    subtrees (sections_of (pre @ line # post) ! (count_main pre - 1)) !
        count_sub (after_last_main pre) =
      SOPSection_tree
        (t_number (sections_of (pre @ line # post) ! (count_main pre - 1)) @ js ''.'' @
         decimal (Suc (count_sub (after_last_main pre))))
        (subsectionTitle (trim line)) (content_of (until_next_heading post)) None"
proof -
  define v where "v = foldl view_step initial_view pre"
  define S where "S = sections_of (pre @ line # post)"
  define k where "k = count_main pre - 1"
  define j where "j = count_sub (after_last_main pre)"
  define c1 where "c1 = content_of (until_next_heading post)"
  define m where "m = count_sub (until_next_main post)"
  have inv: "view_inv v" unfolding v_def by (rule view_inv_sections)
  from reach_open[OF op] obtain t where t: "current v = Some t"
    and pk: "length (pushed v) = k" and sj: "length (subtrees t) = j"
    by (auto simp: v_def k_def j_def)
  from inv t sj have no: "subNo v = Suc j" by (simp add: view_inv_def)
  define u where "u = SOPSection_tree (t_number t @ js ''.'' @ decimal (Suc j))
                    (subsectionTitle (trim line)) [] None"
  define t1 where "t1 = add_subsection u t"
  have st: "view_step v line = v\<lparr>current := Some t1, subOpen := True, subNo := subNo v + 1\<rparr>"
    using sh t no by (simp add: view_step_sub t1_def u_def)
  have S: "S = view_flush (foldl view_step (view_step v line) post)"
    by (simp add: S_def sections_of_def v_def)
  have "settled (view_step v line) t1 post S"
    unfolding S using inv st by (intro settled_run view_inv_step) simp_all
  then have "k < length S" "t_number (S ! k) = t_number t"
    "length (subtrees (S ! k)) = Suc (j + m)"
    "subtrees (S ! k) ! j = add_content c1 u"
    by (simp_all add: settled_def st pk t1_def sj c1_def m_def)
  then have "k < length S \<and> length (subtrees (S ! k)) = Suc (j + m) \<and>
    subtrees (S ! k) ! j =
      SOPSection_tree (t_number (S ! k) @ js ''.'' @ decimal (Suc j))
        (subsectionTitle (trim line)) c1 None"
    by (simp add: u_def add_content_def)
  then show ?thesis
    unfolding S_def k_def j_def c1_def m_def .
qed

lemma content_without_heading:
  assumes "0 < count_main pre" and "\<not> isContentLine line"
  shows "content_of (dropWhile (\<lambda>l. \<not> isMainHeading (trim l)) (pre @ line # post)) =
         content_of (dropWhile (\<lambda>l. \<not> isMainHeading (trim l)) (pre @ post))"
proof -
  from assms(1) obtain p where "p \<in> set pre" "\<not> \<not> isMainHeading (trim p)"
    using count_main_zero[of pre] by auto
  then have "dropWhile (\<lambda>l. \<not> isMainHeading (trim l)) (pre @ ys) =
      dropWhile (\<lambda>l. \<not> isMainHeading (trim l)) pre @ ys" for ys
    by (intro dropWhile_append1)
  then show ?thesis
    using assms(2) by (simp add: content_of_Cons)
qed

lemma all_content_sections_of_content:
  "concat (map all_content (sections_of ls)) =
     content_of (dropWhile (\<lambda>l. \<not> isMainHeading (trim l)) ls)"
  by (simp add: all_content_sections_of content_of_def)

section \<open>The title of a second-level heading numbered "N.M."\<close>

text \<open>
  Whatever the numbers are, the pattern for "N.M" removes them before the pattern for
  "N.M." is tried, and the period stays in the title.
\<close>

lemma digit_not_space:
  assumes "isDigit c"
  shows "\<not> isWhiteSpace c"
proof -
  from assms have lo: "0x30 \<le> c" and hi: "c \<le> 0x39"
    by (simp_all add: isDigit_def)
  have "\<not> 0x2000 \<le> c"
  proof
    assume "0x2000 \<le> c"
    then have "(0x2000 :: code_unit) \<le> 0x39" using hi by (rule order_trans)
    then show False by simp
  qed
  then show ?thesis
    using lo hi by (auto simp: isWhiteSpace_def)
qed

lemma match_digits_run:
  assumes "n \<noteq> []" and "\<forall>c \<in> set n. isDigit c" and "\<not> isDigit x"
  shows "match_digits (n @ x # rest) = Some (x # rest)"
  using assms by (simp add: match_digits_def takeWhile_append2 dropWhile_append2)

lemma subsectionTitle_two_level_period:
  assumes n: "n \<noteq> []" "\<forall>c \<in> set n. isDigit c"
    and m: "m \<noteq> []" "\<forall>c \<in> set m. isDigit c"
    and t: "ttl \<noteq> []" "\<not> isWhiteSpace (last ttl)"
  shows "subsectionTitle (js ''#### '' @ n @ js ''.'' @ m @ js ''. '' @ ttl) = js ''. '' @ ttl"
proof -
  define s where "s = js ''#### '' @ n @ js ''.'' @ m @ js ''. '' @ ttl"
  have nd: "\<not> isDigit 0x2E" by (simp add: isDigit_def)
  have ns: "\<not> isWhiteSpace 0x2E" by (simp add: isWhiteSpace_def)
  from n obtain c cs where ncs: "n = c # cs" by (cases n) auto
  with n have "\<not> isWhiteSpace c" by (simp add: digit_not_space)
  moreover have "isWhiteSpace 0x20" by (simp add: isWhiteSpace_def)
  ultimately have r1: "replace_prefix re_hash4 s = n @ 0x2E # m @ 0x2E # 0x20 # ttl"
    by (simp add: s_def replace_prefix_def re_hash4_def match_literal_def startsWith_def
        match_spaces0_def js_def ncs)
  have r2: "replace_prefix re_num_num (n @ 0x2E # m @ 0x2E # 0x20 # ttl) = 0x2E # 0x20 # ttl"
    using n m nd ns
    by (simp add: replace_prefix_def re_num_num_def match_digits_run match_dot_def
        match_spaces0_def)
  have r3: "replace_prefix re_num_num_dot (0x2E # 0x20 # ttl) = 0x2E # 0x20 # ttl"
    using nd by (simp add: replace_prefix_def re_num_num_dot_def match_digits_def)
  from t have "rev ttl \<noteq> []" "\<not> isWhiteSpace (hd (rev ttl))"
    by (simp_all add: hd_rev)
  then have "dropWhile isWhiteSpace (rev ttl @ [0x20, 0x2E]) = rev ttl @ [0x20, 0x2E]"
    by (cases "rev ttl") auto
  then have "trim (0x2E # 0x20 # ttl) = 0x2E # 0x20 # ttl"
    using ns by (simp add: trim_def)
  then have "subsectionTitle s = 0x2E # 0x20 # ttl"
    by (simp add: subsectionTitle_def r1 r2 r3)
  then show ?thesis
    by (simp add: s_def js_def)
qed

section \<open>Evaluation on concrete texts\<close>

lemmas string_eval =
  js_def LF_def trim_def startsWith_def isWhiteSpace_def isDigit_def decimal.simps
  replace_prefix_def match_literal_def match_digits_def match_dot_def match_spaces0_def
  match_spaces1_def re_hash3_def re_hash4_def re_num_dot_def re_num_space_def
  re_num_num_def re_num_num_dot_def sectionTitle_def subsectionTitle_def
  isMainHeading_def isSubHeading_def padStart_def

lemmas parser_eval =
  parseSOPResponse_def parseLines_def step_def initial_state_def alloc_def deref_def
  flush_def or_empty_def makeDocumentNumber_def makeEffectiveDate_def

lemma scenario_lines:
  "split LF scenario_text =
     [js ''### Purpose'', js ''This explains why.'', js ''#### Scope Note'',
      js ''Limited to dept A.'', js ''### Procedure'', js ''1. Step One - do thing'', []]"
  by (simp add: scenario_text_def js_def LF_def)

lemma scenario_run:
  "run initial_state (split LF scenario_text) =
     Inr \<lparr>store =
            [\<lparr>number = js ''1'', title = js ''Purpose'',
              content = js ''This explains why.'' @ [LF], subsections = Some [1]\<rparr>,
             \<lparr>number = js ''1.1'', title = js ''Scope Note'',
              content = js ''Limited to dept A.'' @ [LF], subsections = None\<rparr>,
             \<lparr>number = js ''2'', title = js ''Procedure'',
              content = js ''1. Step One - do thing'' @ [LF], subsections = Some []\<rparr>],
          sections = [0], currentSection = Some 2, currentSubsection = None,
          sectionNumber = 3, subsectionNumber = 1\<rparr>"
  unfolding scenario_lines
  by (simp add: string_eval step_def initial_state_def alloc_def deref_def or_empty_def)

lemma documentNumber_example: "makeDocumentNumber example_env = js ''SOP-2025-01-007''"
  by (simp add: makeDocumentNumber_def example_env_def string_eval numeral_2_eq_2)

lemma documentNumber_other: "makeDocumentNumber other_env = js ''SOP-2025-01-008''"
  by (simp add: makeDocumentNumber_def other_env_def string_eval numeral_2_eq_2)

lemma two_subs_eval:
  "parseSOPResponse (js ''### A'' @ [LF] @ js ''#### B'' @ [LF] @ js ''#### C'')
       example_input example_env =
     Inr \<lparr>doc_title = input_title example_input,
          documentNumber = makeDocumentNumber example_env,
          version = js ''1.0'',
          effectiveDate = makeEffectiveDate example_env,
          doc_sections =
            [SOPSection_tree (js ''1'') (js ''A'') []
               (Some [SOPSection_tree (js ''1.1'') (js ''B'') [] None,
                      SOPSection_tree (js ''1.2'') (js ''C'') [] None])]\<rparr>"
  by (simp add: string_eval parser_eval)

lemma orphan_lines:
  "split LF (js ''#### Orphan'' @ [LF] @ js ''text'' @ [LF]) =
     [] @ js ''#### Orphan'' # [js ''text'', []]"
  by (simp add: js_def LF_def)

lemma orphan_heading: "isSubHeading (trim (js ''#### Orphan''))"
  by (simp add: string_eval)

lemma orphan_rest_eval:
  "parseLines ([] @ [js ''text'', []]) example_input example_env =
     Inr \<lparr>doc_title = input_title example_input,
          documentNumber = makeDocumentNumber example_env,
          version = js ''1.0'',
          effectiveDate = makeEffectiveDate example_env,
          doc_sections = []\<rparr>"
  by (simp add: string_eval parser_eval)

lemma one_section_eval:
  "parseSOPResponse (js ''### A'') example_input example_env =
     Inr \<lparr>doc_title = input_title example_input,
          documentNumber = makeDocumentNumber example_env,
          version = js ''1.0'',
          effectiveDate = makeEffectiveDate example_env,
          doc_sections = [SOPSection_tree (js ''1'') (js ''A'') [] (Some [])]\<rparr>"
  by (simp add: string_eval parser_eval)

lemma mixed_lines:
  "split LF mixed_text =
     [js ''### A'', js ''a'', js ''##### Deep'', js ''#### B'', js ''### C'']"
  by (simp add: mixed_text_def js_def LF_def)

lemmas position_eval =
  count_main_def count_sub_def after_last_main_def after_last_heading_def
  until_next_heading_def content_of_def isHeadingLine_def isContentLine_def

lemma effectiveDate_example: "makeEffectiveDate example_env = js ''2025-01-02''"
  by (simp add: makeEffectiveDate_def example_env_def js_def)

lemma effectiveDate_other: "makeEffectiveDate other_env = js ''2025-01-02''"
  by (simp add: makeEffectiveDate_def other_env_def js_def)

lemma title_example: "input_title example_input = js ''Handling returns''"
  by (simp add: example_input_def)

lemma section_B_eval:
  "parseSOPResponse (js ''### B'') example_input other_env =
     Inr \<lparr>doc_title = input_title example_input,
          documentNumber = makeDocumentNumber other_env,
          version = js ''1.0'',
          effectiveDate = makeEffectiveDate other_env,
          doc_sections = [SOPSection_tree (js ''1'') (js ''B'') [] (Some [])]\<rparr>"
  by (simp add: string_eval parser_eval)

section \<open>The claims\<close>

text \<open>
  Claim C3. For every input text, the \<^verbatim>\<open>number\<close> fields of the sections of the returned
  document are exactly the decimal strings "1", "2", ..., "N" in order, where N is the
  number of lines whose trimmed form is a first-level heading; text inside the heading
  lines plays no part.
\<close>

theorem C3_section_numbers:
  "\<exists>d. parseSOPResponse text input env = Inr d \<and>
       map t_number (doc_sections d) =
         map decimal [1 ..< Suc (count_main (split LF text))]"
  by (simp add: parseSOPResponse_def parseLines_view numbers_sections_of)

text \<open>
  Claim C9. The parser returns a document for every input text: no run reaches an
  error, neither a reference to no object nor an object graph that is not a tree.
\<close>

theorem C9_total:
  "\<exists>d. parseSOPResponse text input env = Inr d"
  by (simp add: parseSOPResponse_def parseLines_view)

text \<open>
  Claim C4. For every input text, every section of the returned document has a
  \<^verbatim>\<open>subsections\<close> array, and the numbers of its subsections are the section's own
  number, a period, and the ordinals 1, 2, ..., k in order: the ordinal starts again
  at 1 under every section.
\<close>

theorem C4_subsection_numbers:
  "\<exists>d. parseSOPResponse text input env = Inr d \<and>
       (\<forall>sec \<in> set (doc_sections d).
          \<exists>subs. t_subsections sec = Some subs \<and>
            map t_number subs =
              map (\<lambda>j. t_number sec @ js ''.'' @ decimal j) [1 ..< Suc (length subs)])"
proof -
  have "\<exists>subs. t_subsections sec = Some subs \<and>
            map t_number subs =
              map (\<lambda>j. t_number sec @ js ''.'' @ decimal j) [1 ..< Suc (length subs)]"
    if "sec \<in> set (sections_of (split LF text))" for sec
    using sub_numbers_sections_of[OF that]
    by (auto simp: expected_subnumbers_def subtrees_def)
  then show ?thesis
    by (simp add: parseSOPResponse_def parseLines_view)
qed

text \<open>
  Claim C6. On the scenario text of the specification the parser yields exactly two
  sections: section "1" titled "Purpose" with content "This explains why." and a
  line feed, holding the single subsection "1.1" titled "Scope Note" with content
  "Limited to dept A." and a line feed; and section "2" titled "Procedure" with
  content "1. Step One - do thing" and a line feed, and an empty array of subsections.
\<close>

theorem C6_scenario:
  "parseSOPResponse scenario_text input env =
     Inr \<lparr>doc_title = input_title input,
          documentNumber = makeDocumentNumber env,
          version = js ''1.0'',
          effectiveDate = makeEffectiveDate env,
          doc_sections =
            [SOPSection_tree (js ''1'') (js ''Purpose'') (js ''This explains why.'' @ [LF])
               (Some [SOPSection_tree (js ''1.1'') (js ''Scope Note'')
                        (js ''Limited to dept A.'' @ [LF]) None]),
             SOPSection_tree (js ''2'') (js ''Procedure'')
               (js ''1. Step One - do thing'' @ [LF]) (Some [])]\<rparr>"
  by (simp add: parseSOPResponse_def parseLines_def scenario_run flush_def deref_def
      numeral_3_eq_3)

text \<open>
  Claim C7. A line whose trimmed form starts with \<^verbatim>\<open>####\<close> is never a first-level
  heading and adds no section: the document has as many sections as the other lines
  have first-level headings. When no first-level heading stands before it, the line
  is dropped entirely: the document is the one the text without that line gives, so
  the line leaves no subsection anywhere.
\<close>

theorem C7_subheading_never_section:
  assumes "split LF text = pre @ l # post" and "isSubHeading (trim l)"
  shows "\<not> isMainHeading (trim l) \<and>
         (\<exists>d. parseSOPResponse text input env = Inr d \<and>
              length (doc_sections d) = count_main (pre @ post) \<and>
              ((\<forall>p \<in> set pre. \<not> isMainHeading (trim p)) \<longrightarrow>
                 parseLines (pre @ post) input env = Inr d))"
  using assms
  by (simp add: parseSOPResponse_def parseLines_view sub_not_main length_sections_of
      count_main_without orphan_dropped)


text \<open>
  Claim C10. Take a line whose trimmed form begins with five or more \<^verbatim>\<open>#\<close>, at any
  place of the text after a first-level heading. It is a second-level heading, neither
  a first-level heading nor content: the document has as many sections as the other
  lines have first-level headings, and the same contents as without the line. In the
  returned document the section open at that line has one subsection for each
  second-level heading of its part of the text, this line among them, and holds, at the
  place after the subsections opened before the line, a subsection numbered after them, without
  subsections of its own, whose content is the content lines up to the next heading and
  whose title is the trimmed line without its first four characters: only four marks
  are stripped, and the title starts with the surplus \<^verbatim>\<open>#\<close>.
\<close>

theorem C10_surplus_hashes:
  assumes "split LF text = pre @ line # post"
    and "startsWith (trim line) (js ''#####'')"
    and "0 < count_main pre"
  shows "isSubHeading (trim line) \<and> \<not> isMainHeading (trim line) \<and> \<not> isContentLine line \<and>
     startsWith (drop 4 (trim line)) (js ''#'') \<and>
     (\<exists>d. parseSOPResponse text input env = Inr d \<and>
        length (doc_sections d) = count_main (pre @ post) \<and>
        count_main pre - 1 < length (doc_sections d) \<and>
        length (subtrees (doc_sections d ! (count_main pre - 1))) =
          Suc (count_sub (after_last_main pre) + count_sub (until_next_main post)) \<and>
        subtrees (doc_sections d ! (count_main pre - 1)) ! count_sub (after_last_main pre) =
          SOPSection_tree
            (t_number (doc_sections d ! (count_main pre - 1)) @ js ''.'' @
             decimal (Suc (count_sub (after_last_main pre))))
            (drop 4 (trim line)) (content_of (until_next_heading post)) None \<and>
        concat (map all_content (doc_sections d)) =
          content_of (dropWhile (\<lambda>l. \<not> isMainHeading (trim l)) (pre @ post)))"
proof -
  have sh: "isSubHeading (trim line)"
    using assms(2) by (rule hashes_sub_heading)
  then have nm: "\<not> isMainHeading (trim line)" and nc: "\<not> isContentLine line"
    by (simp_all add: sub_not_main content_line_cases)
  have len: "length (sections_of (pre @ line # post)) = count_main (pre @ post)"
    using nm by (simp add: length_sections_of count_main_without)
  have con: "concat (map all_content (sections_of (pre @ line # post))) =
      content_of (dropWhile (\<lambda>l. \<not> isMainHeading (trim l)) (pre @ post))"
    using assms(3) nc by (simp add: all_content_sections_of_content content_without_heading)
  from sub_heading_settled[OF sh assms(3), of post] len con show ?thesis
    using sh nm nc assms(1,2)
    by (simp add: parseSOPResponse_def parseLines_view subsectionTitle_hashes
        hashes_title_start)
qed

text \<open>
  Claim C2, as amended. The fields \<^verbatim>\<open>title\<close>, \<^verbatim>\<open>documentNumber\<close>, \<^verbatim>\<open>version\<close> and
  \<^verbatim>\<open>effectiveDate\<close> of the returned document are not derived from the parsed text. Only
  the title is carried from the descriptor; the version is the constant "1.0"; the
  document number and the effective date are made inside the parser from its own
  readings of the clock and the random generator. Two texts parsed with the same
  descriptor at the same readings give the same four fields.
\<close>

theorem C2_metadata_not_from_text:
  "\<exists>d1 d2. parseSOPResponse text1 input env = Inr d1 \<and>
           parseSOPResponse text2 input env = Inr d2 \<and>
           doc_title d1 = input_title input \<and>
           documentNumber d1 = makeDocumentNumber env \<and>
           version d1 = js ''1.0'' \<and>
           effectiveDate d1 = makeEffectiveDate env \<and>
           doc_title d2 = doc_title d1 \<and>
           documentNumber d2 = documentNumber d1 \<and>
           version d2 = version d1 \<and>
           effectiveDate d2 = effectiveDate d1"
  by (simp add: parseSOPResponse_def parseLines_view)

text \<open>
  Claim C2 as stated fails: it holds only the descriptor fixed. With the same
  descriptor, two texts parsed at two different values of the random generator give
  two different document numbers.
\<close>

theorem C2_counterexample:
  "parseSOPResponse (js ''### A'') example_input example_env =
     Inr \<lparr>doc_title = js ''Handling returns'',
          documentNumber = js ''SOP-2025-01-007'',
          version = js ''1.0'',
          effectiveDate = js ''2025-01-02'',
          doc_sections = [SOPSection_tree (js ''1'') (js ''A'') [] (Some [])]\<rparr> \<and>
   parseSOPResponse (js ''### B'') example_input other_env =
     Inr \<lparr>doc_title = js ''Handling returns'',
          documentNumber = js ''SOP-2025-01-008'',
          version = js ''1.0'',
          effectiveDate = js ''2025-01-02'',
          doc_sections = [SOPSection_tree (js ''1'') (js ''B'') [] (Some [])]\<rparr> \<and>
   js ''SOP-2025-01-007'' \<noteq> js ''SOP-2025-01-008''"
proof -
  have "js ''SOP-2025-01-007'' \<noteq> js ''SOP-2025-01-008''"
    by (simp add: js_def)
  then show ?thesis
    unfolding one_section_eval section_B_eval documentNumber_example documentNumber_other
      effectiveDate_example effectiveDate_other title_example
    by simp
qed

text \<open>
  Claim C1, as amended. For the same text and descriptor, two invocations return
  documents with the same title, version and sections, whatever the clock and the
  random generator say; the document number and the effective date are functions of
  the readings of the clock and the random generator taken during the call.
\<close>

theorem C1_sections_depend_on_arguments_only:
  "\<exists>d1 d2. parseSOPResponse text input env1 = Inr d1 \<and>
           parseSOPResponse text input env2 = Inr d2 \<and>
           doc_title d1 = doc_title d2 \<and>
           version d1 = version d2 \<and>
           doc_sections d1 = doc_sections d2 \<and>
           documentNumber d1 = makeDocumentNumber env1 \<and>
           documentNumber d2 = makeDocumentNumber env2 \<and>
           effectiveDate d1 = makeEffectiveDate env1 \<and>
           effectiveDate d2 = makeEffectiveDate env2"
  by (simp add: parseSOPResponse_def parseLines_view)

text \<open>
  Claim C1 as stated fails: the same text and descriptor, parsed at two different
  values of the random generator, give two different documents (their document
  numbers end in 007 and in 008).
\<close>

theorem C1_counterexample:
  "parseSOPResponse scenario_text example_input example_env \<noteq>
   parseSOPResponse scenario_text example_input other_env"
  by (simp add: parseSOPResponse_def parseLines_view documentNumber_example
      documentNumber_other js_def)

text \<open>
  Claim C5 fails on the code. On the second-level heading line "#### 1.2. Title" under
  an open section, the pattern for "N.M" runs first and removes "1.2", the pattern for
  "N.M." then finds no digit at the start, and the subsection's title is ". Title",
  with the stray period (\<open>subsectionTitle_two_level_period\<close> shows the same for every
  pair of numbers and every title).
\<close>

theorem C5_stray_period:
  "parseSOPResponse (js ''### A'' @ [LF] @ js ''#### 1.2. Title'') input env =
     Inr \<lparr>doc_title = input_title input,
          documentNumber = makeDocumentNumber env,
          version = js ''1.0'',
          effectiveDate = makeEffectiveDate env,
          doc_sections =
            [SOPSection_tree (js ''1'') (js ''A'') []
               (Some [SOPSection_tree (js ''1.1'') (js ''. Title'') [] None])]\<rparr>"
  by (simp add: string_eval parser_eval)

section \<open>The claims at concrete texts\<close>

text \<open>
  Claim C4 at a text with one section and two subsections: the theorem gives the
  numbers "1.1" and "1.2" for the subsections of the section that the parser returns.
\<close>

theorem C4_witness:
  "\<exists>d sec subs.
     parseSOPResponse (js ''### A'' @ [LF] @ js ''#### B'' @ [LF] @ js ''#### C'')
       example_input example_env = Inr d \<and>
     sec \<in> set (doc_sections d) \<and>
     t_subsections sec = Some subs \<and>
     map t_number subs = [js ''1.1'', js ''1.2'']"
proof -
  define t where "t = js ''### A'' @ [LF] @ js ''#### B'' @ [LF] @ js ''#### C''"
  define sec where "sec = SOPSection_tree (js ''1'') (js ''A'') []
               (Some [SOPSection_tree (js ''1.1'') (js ''B'') [] None,
                      SOPSection_tree (js ''1.2'') (js ''C'') [] None])"
  from C4_subsection_numbers[of t example_input example_env] obtain d where
    d: "parseSOPResponse t example_input example_env = Inr d"
    and all: "\<forall>sec \<in> set (doc_sections d).
          \<exists>subs. t_subsections sec = Some subs \<and>
            map t_number subs =
              map (\<lambda>j. t_number sec @ js ''.'' @ decimal j) [1 ..< Suc (length subs)]"
    by blast
  from d[unfolded t_def two_subs_eval] have "doc_sections d = [sec]"
    by (auto simp: sec_def)
  then have mem: "sec \<in> set (doc_sections d)" by simp
  with all obtain subs where subs: "t_subsections sec = Some subs"
    "map t_number subs = map (\<lambda>j. t_number sec @ js ''.'' @ decimal j) [1 ..< Suc (length subs)]"
    by blast
  from subs(1) have "length subs = 2" by (auto simp: sec_def)
  with subs(2) have "map t_number subs = [js ''1.1'', js ''1.2'']"
    by (simp add: sec_def upt_rec decimal.simps js_def)
  with d mem subs(1) have
    "parseSOPResponse t example_input example_env = Inr d \<and>
     sec \<in> set (doc_sections d) \<and>
     t_subsections sec = Some subs \<and>
     map t_number subs = [js ''1.1'', js ''1.2'']"
    by simp
  then show ?thesis
    unfolding t_def
    by (intro exI[where x=d] exI[where x=sec] exI[where x=subs])
qed

text \<open>
  Claim C7 at the orphan scenario of the specification: the second-level heading
  stands before any first-level heading, and the document has no section at all.
\<close>

theorem C7_witness:
  "split LF (js ''#### Orphan'' @ [LF] @ js ''text'' @ [LF]) =
     [] @ js ''#### Orphan'' # [js ''text'', []] \<and>
   isSubHeading (trim (js ''#### Orphan'')) \<and>
   \<not> isMainHeading (trim (js ''#### Orphan'')) \<and>
   parseSOPResponse (js ''#### Orphan'' @ [LF] @ js ''text'' @ [LF])
       example_input example_env =
     Inr \<lparr>doc_title = input_title example_input,
          documentNumber = makeDocumentNumber example_env,
          version = js ''1.0'',
          effectiveDate = makeEffectiveDate example_env,
          doc_sections = []\<rparr>"
proof -
  from C7_subheading_never_section[OF orphan_lines orphan_heading,
      of example_input example_env]
  obtain d where nm: "\<not> isMainHeading (trim (js ''#### Orphan''))"
    and d: "parseSOPResponse (js ''#### Orphan'' @ [LF] @ js ''text'' @ [LF])
       example_input example_env = Inr d"
    and drop: "(\<forall>p \<in> set []. \<not> isMainHeading (trim p)) \<longrightarrow>
       parseLines ([] @ [js ''text'', []]) example_input example_env = Inr d"
    by blast
  from drop have pl: "parseLines ([] @ [js ''text'', []]) example_input example_env = Inr d"
    by simp
  from pl[unfolded orphan_rest_eval] have "d = \<lparr>doc_title = input_title example_input,
          documentNumber = makeDocumentNumber example_env,
          version = js ''1.0'',
          effectiveDate = makeEffectiveDate example_env,
          doc_sections = []\<rparr>"
    by auto
  with d nm orphan_lines orphan_heading show ?thesis by simp
qed


text \<open>
  Claim C10 at the line "##### Deep" in the middle of the same text: the first
  subsection of the first section of the returned document is numbered ".1" under its
  section and titled "# Deep".
\<close>

theorem C10_witness:
  "split LF mixed_text =
     [js ''### A'', js ''a''] @ js ''##### Deep'' # [js ''#### B'', js ''### C''] \<and>
   startsWith (trim (js ''##### Deep'')) (js ''#####'') \<and>
   0 < count_main [js ''### A'', js ''a''] \<and>
   (\<exists>d. parseSOPResponse mixed_text example_input example_env = Inr d \<and>
      length (doc_sections d) = 2 \<and>
      length (subtrees (doc_sections d ! 0)) = 2 \<and>
      subtrees (doc_sections d ! 0) ! 0 =
        SOPSection_tree (t_number (doc_sections d ! 0) @ js ''.1'') (js ''# Deep'') [] None)"
proof -
  have h1: "split LF mixed_text =
      [js ''### A'', js ''a''] @ js ''##### Deep'' # [js ''#### B'', js ''### C'']"
    by (simp add: mixed_lines)
  have h2: "startsWith (trim (js ''##### Deep'')) (js ''#####'')"
    by (simp add: string_eval)
  have k: "count_main [js ''### A'', js ''a''] = 1"
    by (simp add: position_eval string_eval)
  then have h3: "0 < count_main [js ''### A'', js ''a'']" by simp
  have j: "count_sub (after_last_main [js ''### A'', js ''a'']) = 0"
    by (simp add: position_eval string_eval)
  have m: "count_sub (until_next_main [js ''#### B'', js ''### C'']) = 1"
    by (simp add: position_eval until_next_main_def string_eval)
  have n: "count_main ([js ''### A'', js ''a''] @ [js ''#### B'', js ''### C'']) = 2"
    by (simp add: position_eval string_eval)
  have ti: "drop 4 (trim (js ''##### Deep'')) = js ''# Deep''"
    by (simp add: string_eval)
  have c: "content_of (until_next_heading [js ''#### B'', js ''### C'']) = []"
    by (simp add: position_eval string_eval)
  have d1: "js ''.'' @ decimal (Suc 0) = js ''.1''"
    by (simp add: decimal.simps js_def)
  from C10_surplus_hashes[OF h1 h2 h3, of example_input example_env]
  have "\<exists>d. parseSOPResponse mixed_text example_input example_env = Inr d \<and>
      length (doc_sections d) = 2 \<and>
      length (subtrees (doc_sections d ! 0)) = 2 \<and>
      subtrees (doc_sections d ! 0) ! 0 =
        SOPSection_tree (t_number (doc_sections d ! 0) @ js ''.1'') (js ''# Deep'') [] None"
    unfolding n ti c m by (auto simp: k j d1)
  with h1 h2 h3 show ?thesis by blast
qed

end
